theory Spec2Isabelle
  imports Main "HOL-Library.Word" "HOL-Library.AList"
begin

section \<open>Values\<close>

text \<open>
  The adapter in \<^verbatim>\<open>packages/adapter-neo4j/src/index.ts\<close> moves flat objects between
  JavaScript and a Neo4j graph. A value is what a field of such an object can hold:
  \<^item> \<open>VNull\<close>: \<^verbatim>\<open>null\<close> (an absent field is an absent key);
  \<^item> \<open>VBool\<close>, \<open>VStr\<close>: booleans and strings;
  \<^item> \<open>VNum\<close>: a JavaScript number holding an integer value (the only numbers the adapter
    itself produces, by \<^verbatim>\<open>Integer.toNumber()\<close> inside the safe range);
  \<^item> \<open>VDate\<close>: a JavaScript \<^verbatim>\<open>Date\<close>; its time value is the milliseconds since the
    epoch, or \<open>None\<close> for an invalid date (time value NaN);
  \<^item> \<open>VInteger\<close>: the driver's \<^verbatim>\<open>Integer\<close> object, a 64-bit two's complement integer
    (recognised by \<^verbatim>\<open>isInt\<close>);
  \<^item> \<open>VDateTime\<close>: the store's native temporal value (the driver's \<^verbatim>\<open>DateTime\<close> object),
    abstracted to its instant in milliseconds;
  \<^item> \<open>VMap\<close>: a nested object (a result row holds maps such as \<^verbatim>\<open>u{.*}\<close>).
  An object is an association list of field names and values, in the order in which
  \<^verbatim>\<open>for (const key in object)\<close> visits them; the keys of a JavaScript object are distinct.
\<close>

datatype val =
    VNull
  | VBool bool
  | VNum int
  | VStr string
  | VDate "int option"
  | VInteger "64 word"
  | VDateTime int
  | VMap "(string \<times> val) list"

type_synonym obj = "(string \<times> val) list"

datatype error = RangeError | TypeError | StoreError

text \<open>
  The functions of the JavaScript platform and of the driver that the adapter calls but
  does not define are parameters of the model:
  \<^item> \<open>Date_parse\<close>: \<^verbatim>\<open>Date.parse\<close>, with \<open>None\<close> for NaN;
  \<^item> \<open>toISOString\<close>: \<^verbatim>\<open>Date.prototype.toISOString\<close> on a valid time value;
  \<^item> \<open>DateTime_toString\<close>: the string form of the driver's \<^verbatim>\<open>DateTime\<close> object.
\<close>

record platform =
  Date_parse :: "string \<Rightarrow> int option"
  toISOString :: "int \<Rightarrow> string"
  DateTime_toString :: "int \<Rightarrow> string"

section \<open>The driver's 64-bit integers\<close>

text \<open>
  \<^verbatim>\<open>Integer.toString()\<close> is the decimal numeral of the signed value,
  \<^verbatim>\<open>Integer.toNumber()\<close> the signed value as a number, and \<^verbatim>\<open>integer.inSafeRange\<close>
  compares with \<^verbatim>\<open>Number.MIN_SAFE_INTEGER\<close> and \<^verbatim>\<open>Number.MAX_SAFE_INTEGER\<close>.
\<close>

definition digit_char :: "nat \<Rightarrow> char" where
  "digit_char d = ''0123456789'' ! d"

fun show_nat :: "nat \<Rightarrow> string" where
  "show_nat n = (if n < 10 then [digit_char n] else show_nat (n div 10) @ [digit_char (n mod 10)])"

declare show_nat.simps [simp del]

definition show_int :: "int \<Rightarrow> string" where
  "show_int i = (if i < 0 then CHR ''-'' # show_nat (nat (- i)) else show_nat (nat i))"

definition digit_val :: "char \<Rightarrow> nat" where
  "digit_val c = of_char c - 48"

definition read_nat :: "string \<Rightarrow> nat" where
  "read_nat s = foldl (\<lambda>a c. 10 * a + digit_val c) 0 s"

definition read_int :: "string \<Rightarrow> int" where
  "read_int s = (case s of
      [] \<Rightarrow> 0
    | c # cs \<Rightarrow> if c = CHR ''-'' then - int (read_nat cs) else int (read_nat (c # cs)))"

definition isInt :: "val \<Rightarrow> bool" where
  "isInt v = (case v of VInteger _ \<Rightarrow> True | _ \<Rightarrow> False)"

definition MAX_SAFE_VALUE :: int where
  "MAX_SAFE_VALUE = 2 ^ 53 - 1"

definition MIN_SAFE_VALUE :: int where
  "MIN_SAFE_VALUE = - (2 ^ 53 - 1)"

definition inSafeRange :: "64 word \<Rightarrow> bool" where
  "inSafeRange w = (MIN_SAFE_VALUE \<le> sint w \<and> sint w \<le> MAX_SAFE_VALUE)"

definition toNumber :: "64 word \<Rightarrow> int" where
  "toNumber w = sint w"

definition Integer_toString :: "64 word \<Rightarrow> string" where
  "Integer_toString w = show_int (sint w)"

section \<open>The date pattern\<close>

text \<open>
  \<^verbatim>\<open>isoDateRE\<close> is a regular expression without anchors; \<^verbatim>\<open>isoDateRE.test(value)\<close>
  holds when some substring of the string matches. The expressions it is built from:
  \<open>Digit\<close> is \<^verbatim>\<open>\d\<close>, \<open>Cls\<close> a character class, \<open>Lit\<close> one character,
  \<open>Digits1\<close> is \<^verbatim>\<open>\d+\<close>, \<open>Seq\<close> is concatenation and \<open>Alt\<close> is \<^verbatim>\<open>|\<close>.
  \<open>re_match r s\<close> lists what is left of \<open>s\<close> after each way of matching \<open>r\<close> at its start.
\<close>

datatype re = Digit | Cls string | Lit char | Digits1 | Seq re re | Alt re re

definition is_digit :: "char \<Rightarrow> bool" where
  "is_digit c = (c \<in> set ''0123456789'')"

fun digits1 :: "string \<Rightarrow> string list" where
  "digits1 [] = []"
| "digits1 (c # cs) = (if is_digit c then digits1 cs @ [cs] else [])"

fun re_match :: "re \<Rightarrow> string \<Rightarrow> string list" where
  "re_match Digit s = (case s of [] \<Rightarrow> [] | c # cs \<Rightarrow> if is_digit c then [cs] else [])"
| "re_match (Cls xs) s = (case s of [] \<Rightarrow> [] | c # cs \<Rightarrow> if c \<in> set xs then [cs] else [])"
| "re_match (Lit x) s = (case s of [] \<Rightarrow> [] | c # cs \<Rightarrow> if c = x then [cs] else [])"
| "re_match Digits1 s = digits1 s"
| "re_match (Seq a b) s = concat (map (re_match b) (re_match a s))"
| "re_match (Alt a b) s = re_match a s @ re_match b s"

fun re_test :: "re \<Rightarrow> string \<Rightarrow> bool" where
  "re_test r [] = (re_match r [] \<noteq> [])"
| "re_test r (c # cs) = (re_match r (c # cs) \<noteq> [] \<or> re_test r cs)"

fun seqs :: "re list \<Rightarrow> re" where
  "seqs [] = Cls []"
| "seqs [r] = r"
| "seqs (r # rs) = Seq r (seqs rs)"

text \<open>
  The three alternatives of the source share the date, hours and minutes
  \<^verbatim>\<open>\d{4}-[01]\d-[0-3]\dT[0-2]\d:[0-5]\d\<close> and the zone \<^verbatim>\<open>([+-][0-2]\d:[0-5]\d|Z)\<close>;
  the first has seconds and a fraction, the second seconds, the third neither.
\<close>

definition re_date_hm :: "re list" where
  "re_date_hm =
     [Digit, Digit, Digit, Digit, Lit CHR ''-'', Cls ''01'', Digit, Lit CHR ''-'',
      Cls ''0123'', Digit, Lit CHR ''T'', Cls ''012'', Digit, Lit CHR '':'', Cls ''012345'', Digit]"

definition re_sec :: "re list" where
  "re_sec = [Lit CHR '':'', Cls ''012345'', Digit]"

definition re_frac :: "re list" where
  "re_frac = [Lit CHR ''.'', Digits1]"

definition re_zone :: re where
  "re_zone =
     Alt (seqs [Cls ''+-'', Cls ''012'', Digit, Lit CHR '':'', Cls ''012345'', Digit]) (Lit CHR ''Z'')"

definition isoDateRE :: re where
  "isoDateRE =
     Alt (Alt (seqs (re_date_hm @ re_sec @ re_frac @ [re_zone]))
              (seqs (re_date_hm @ re_sec @ [re_zone])))
         (seqs (re_date_hm @ [re_zone]))"

definition isoDateRE_test :: "string \<Rightarrow> bool" where
  "isoDateRE_test s = re_test isoDateRE s"

section \<open>The coercion layer: \<^verbatim>\<open>isDate\<close> and \<^verbatim>\<open>format\<close>\<close>

text \<open>
  \<^verbatim>\<open>isDate(value)\<close> is \<^verbatim>\<open>value && isoDateRE.test(value) && !isNaN(Date.parse(value))\<close>.
  Both \<^verbatim>\<open>test\<close> and \<^verbatim>\<open>Date.parse\<close> first turn the value into a string. For a string that
  is the string itself (the empty string is falsy), for the driver's \<^verbatim>\<open>Integer\<close> its
  decimal numeral and for the driver's \<^verbatim>\<open>DateTime\<close> its string form. The string forms
  of the other values (\<^verbatim>\<open>null\<close>, \<^verbatim>\<open>true\<close>, a number, \<^verbatim>\<open>[object Object]\<close>, and the
  rendering of a \<^verbatim>\<open>Date\<close> that starts with the day of the week, as in
  \<^verbatim>\<open>Thu Jan 01 1970 00:00:00 GMT+0000\<close>) hold no date in the pattern's form, so
  \<^verbatim>\<open>isDate\<close> is false on them.
\<close>

fun isDate :: "platform \<Rightarrow> val \<Rightarrow> bool" where
  "isDate P (VStr s) = (s \<noteq> [] \<and> isoDateRE_test s \<and> Date_parse P s \<noteq> None)"
| "isDate P (VInteger w) =
     (isoDateRE_test (Integer_toString w) \<and> Date_parse P (Integer_toString w) \<noteq> None)"
| "isDate P (VDateTime d) =
     (isoDateRE_test (DateTime_toString P d) \<and> Date_parse P (DateTime_toString P d) \<noteq> None)"
| "isDate P _ = False"

text \<open>\<^verbatim>\<open>new Date(value)\<close> on a value that \<^verbatim>\<open>isDate\<close> accepted parses its string form.\<close>

fun new_Date :: "platform \<Rightarrow> val \<Rightarrow> val" where
  "new_Date P (VStr s) = VDate (Date_parse P s)"
| "new_Date P (VInteger w) = VDate (Date_parse P (Integer_toString w))"
| "new_Date P (VDateTime d) = VDate (Date_parse P (DateTime_toString P d))"
| "new_Date P _ = VDate None"

text \<open>
  \<^verbatim>\<open>format.to\<close>: a \<^verbatim>\<open>Date\<close> becomes \<^verbatim>\<open>value.toISOString()\<close>, which throws a
  \<^verbatim>\<open>RangeError\<close> on an invalid date; every other value is copied.
\<close>

fun to_value :: "platform \<Rightarrow> val \<Rightarrow> error + val" where
  "to_value P (VDate None) = Inl RangeError"
| "to_value P (VDate (Some t)) = Inr (VStr (toISOString P t))"
| "to_value P v = Inr v"

fun format_to :: "platform \<Rightarrow> obj \<Rightarrow> error + obj" where
  "format_to P [] = Inr []"
| "format_to P ((key, value) # object) =
     (case to_value P value of
        Inl e \<Rightarrow> Inl e
      | Inr v \<Rightarrow>
          (case format_to P object of
             Inl e \<Rightarrow> Inl e
           | Inr newObject \<Rightarrow> Inr ((key, v) # newObject)))"

text \<open>
  \<^verbatim>\<open>format.from\<close>: \<^verbatim>\<open>null\<close> for a missing object; otherwise every field goes through
  the three branches of the loop body.
\<close>

definition from_value :: "platform \<Rightarrow> val \<Rightarrow> val" where
  "from_value P value =
     (if isDate P value then new_Date P value
      else if isInt value then
        (case value of
           VInteger w \<Rightarrow> if inSafeRange w then VNum (toNumber w) else VStr (Integer_toString w)
         | _ \<Rightarrow> value)
      else value)"

fun format_from :: "platform \<Rightarrow> obj option \<Rightarrow> obj option" where
  "format_from P None = None"
| "format_from P (Some object) = Some (map (\<lambda>(key, value). (key, from_value P value)) object)"


section \<open>A concrete platform\<close>

text \<open>
  For evaluation on concrete inputs the platform functions are instantiated by the
  date-time format of ECMA-262, \<^verbatim>\<open>YYYY-MM-DDTHH:mm:ss.sssZ\<close> with its expanded years
  \<^verbatim>\<open>+YYYYYY\<close> and \<^verbatim>\<open>-YYYYYY\<close>: \<open>ecma_toISOString\<close> writes it, \<open>ecma_Date_parse\<close>
  reads it (seconds and fraction optional, zone \<^verbatim>\<open>Z\<close> or \<^verbatim>\<open>+HH:mm\<close>) and answers NaN on
  every other string. Days are counted in the proleptic Gregorian calendar.
\<close>

definition days_from_civil :: "int \<Rightarrow> int \<Rightarrow> int \<Rightarrow> int" where
  "days_from_civil y m d =
     (let y' = (if m \<le> 2 then y - 1 else y);
          era = y' div 400;
          yoe = y' - era * 400;
          doy = (153 * (if m > 2 then m - 3 else m + 9) + 2) div 5 + d - 1;
          doe = yoe * 365 + yoe div 4 - yoe div 100 + doy
      in era * 146097 + doe - 719468)"

definition civil_from_days :: "int \<Rightarrow> int \<times> int \<times> int" where
  "civil_from_days z0 =
     (let z = z0 + 719468;
          era = z div 146097;
          doe = z - era * 146097;
          yoe = (doe - doe div 1460 + doe div 36524 - doe div 146096) div 365;
          doy = doe - (365 * yoe + yoe div 4 - yoe div 100);
          mp = (5 * doy + 2) div 153;
          d = doy - (153 * mp + 2) div 5 + 1;
          m = (if mp < 10 then mp + 3 else mp - 9);
          y = yoe + era * 400
      in (if m \<le> 2 then y + 1 else y, m, d))"

definition days_in_month :: "int \<Rightarrow> int \<Rightarrow> int" where
  "days_in_month y m =
     (if m = 2 then (if y mod 4 = 0 \<and> (y mod 100 \<noteq> 0 \<or> y mod 400 = 0) then 29 else 28)
      else if m \<in> {4, 6, 9, 11} then 30 else 31)"

definition pad :: "nat \<Rightarrow> nat \<Rightarrow> string" where
  "pad w n = replicate (w - length (show_nat n)) CHR ''0'' @ show_nat n"

definition ecma_toISOString :: "int \<Rightarrow> string" where
  "ecma_toISOString t =
     (let day = t div 86400000;
          ms = t mod 86400000;
          (y, m, d) = civil_from_days day;
          year = (if 0 \<le> y \<and> y \<le> 9999 then pad 4 (nat y)
                  else (if y < 0 then CHR ''-'' else CHR ''+'') # pad 6 (nat \<bar>y\<bar>))
      in year @ ''-'' @ pad 2 (nat m) @ ''-'' @ pad 2 (nat d) @ ''T'' @
         pad 2 (nat (ms div 3600000)) @ '':'' @ pad 2 (nat (ms div 60000 mod 60)) @ '':'' @
         pad 2 (nat (ms div 1000 mod 60)) @ ''.'' @ pad 3 (nat (ms mod 1000)) @ ''Z'')"

definition num :: "nat \<Rightarrow> string \<Rightarrow> (int \<times> string) option" where
  "num n s = (if n \<le> length s \<and> list_all is_digit (take n s)
              then Some (int (read_nat (take n s)), drop n s) else None)"

definition lit :: "char \<Rightarrow> string \<Rightarrow> string option" where
  "lit c s = (case s of [] \<Rightarrow> None | x # xs \<Rightarrow> if x = c then Some xs else None)"

definition parse_year :: "string \<Rightarrow> (int \<times> string) option" where
  "parse_year s = (case s of
      [] \<Rightarrow> None
    | c # cs \<Rightarrow>
        if c = CHR ''+'' then num 6 cs
        else if c = CHR ''-'' then map_option (\<lambda>(y, r). (- y, r)) (num 6 cs)
        else num 4 s)"

definition parse_frac :: "string \<Rightarrow> (int \<times> string) option" where
  "parse_frac s =
     (let ds = takeWhile is_digit s
      in if ds = [] then None
         else Some (int (read_nat (take 3 (ds @ ''00''))), dropWhile is_digit s))"

definition parse_zone :: "string \<Rightarrow> int option" where
  "parse_zone s =
     (if s = ''Z'' then Some 0
      else case s of
          [] \<Rightarrow> None
        | c # cs \<Rightarrow>
            if c = CHR ''+'' \<or> c = CHR ''-'' then
              Option.bind (num 2 cs) (\<lambda>(h, r1).
              Option.bind (lit CHR '':'' r1) (\<lambda>r2.
              Option.bind (num 2 r2) (\<lambda>(m, r3).
                if r3 = [] \<and> h \<le> 23 \<and> m \<le> 59
                then Some ((if c = CHR ''-'' then - 1 else 1) * (h * 60 + m))
                else None)))
            else None)"

definition parse_sec :: "string \<Rightarrow> (int \<times> int \<times> string) option" where
  "parse_sec s =
     (case lit CHR '':'' s of
        None \<Rightarrow> Some (0, 0, s)
      | Some r1 \<Rightarrow>
          Option.bind (num 2 r1) (\<lambda>(sec, r2).
            case lit CHR ''.'' r2 of
              None \<Rightarrow> Some (sec, 0, r2)
            | Some r3 \<Rightarrow> map_option (\<lambda>(ms, r4). (sec, ms, r4)) (parse_frac r3)))"

definition ecma_Date_parse :: "string \<Rightarrow> int option" where
  "ecma_Date_parse s =
     Option.bind (parse_year s) (\<lambda>(y, r1).
     Option.bind (lit CHR ''-'' r1) (\<lambda>r2.
     Option.bind (num 2 r2) (\<lambda>(m, r3).
     Option.bind (lit CHR ''-'' r3) (\<lambda>r4.
     Option.bind (num 2 r4) (\<lambda>(d, r5).
     Option.bind (lit CHR ''T'' r5) (\<lambda>r6.
     Option.bind (num 2 r6) (\<lambda>(h, r7).
     Option.bind (lit CHR '':'' r7) (\<lambda>r8.
     Option.bind (num 2 r8) (\<lambda>(mi, r9).
     Option.bind (parse_sec r9) (\<lambda>(sec, ms, r10).
     Option.bind (parse_zone r10) (\<lambda>off.
       if 1 \<le> m \<and> m \<le> 12 \<and> 1 \<le> d \<and> d \<le> days_in_month y m \<and>
          (h \<le> 23 \<or> h = 24 \<and> mi = 0 \<and> sec = 0 \<and> ms = 0) \<and> mi \<le> 59 \<and> sec \<le> 59
       then Some (days_from_civil y m d * 86400000 + h * 3600000 + (mi - off) * 60000
                  + sec * 1000 + ms)
       else None)))))))))))"

text \<open>
  The driver prints a \<^verbatim>\<open>DateTime\<close> in UTC with nine fractional digits, as in
  \<^verbatim>\<open>2020-01-01T00:00:00.123000000Z\<close>.
\<close>

definition ecma :: platform where
  "ecma = \<lparr>Date_parse = ecma_Date_parse, toISOString = ecma_toISOString,
           DateTime_toString = (\<lambda>d. take 23 (ecma_toISOString d) @ ''000000Z'')\<rparr>"

section \<open>The graph store\<close>

text \<open>
  The store is a property graph: nodes with one of the four labels of the schema and a map
  of properties, and relationships \<^verbatim>\<open>(:User)-[:HAS_ACCOUNT]->(:Account)\<close> and
  \<^verbatim>\<open>(:User)-[:HAS_SESSION]->(:Session)\<close> between node identities. Two relationships of the
  same type between the same nodes are two entries of \<open>rels\<close>.
\<close>

datatype label = User | Account | Session | VerificationToken

datatype reltype = HAS_ACCOUNT | HAS_SESSION

record node =
  nid :: nat
  nlabel :: label
  nprops :: obj

record graph =
  nodes :: "node list"
  rels :: "(nat \<times> reltype \<times> nat) list"
  next_id :: nat

definition wf_graph :: "graph \<Rightarrow> bool" where
  "wf_graph g = (distinct (map nid (nodes g)) \<and> list_all (\<lambda>n. nid n < next_id g) (nodes g))"

subsection \<open>The Cypher the statements use\<close>

text \<open>
  \<open>param\<close> is \<^verbatim>\<open>$name\<close> and \<open>get_field\<close> is \<^verbatim>\<open>map.key\<close>; both are \<^verbatim>\<open>null\<close> when the key is
  missing. \<open>node_prop\<close> is \<^verbatim>\<open>n.key\<close> on a node.
\<close>

fun get_field :: "val \<Rightarrow> string \<Rightarrow> val" where
  "get_field (VMap m) k = (case map_of m k of Some v \<Rightarrow> v | None \<Rightarrow> VNull)"
| "get_field _ k = VNull"

definition param :: "obj \<Rightarrow> string \<Rightarrow> val" where
  "param ps k = get_field (VMap ps) k"

definition node_prop :: "node \<Rightarrow> string \<Rightarrow> val" where
  "node_prop n k = get_field (VMap (nprops n)) k"

text \<open>
  Equality in a pattern \<^verbatim>\<open>{key: value}\<close>: \<^verbatim>\<open>null\<close> equals nothing, an integer and a float
  are compared as numbers, values of different types are different.
\<close>

fun cypher_eq :: "val \<Rightarrow> val \<Rightarrow> bool" where
  "cypher_eq (VStr a) (VStr b) = (a = b)"
| "cypher_eq (VBool a) (VBool b) = (a = b)"
| "cypher_eq (VNum a) (VNum b) = (a = b)"
| "cypher_eq (VInteger a) (VInteger b) = (a = b)"
| "cypher_eq (VNum a) (VInteger b) = (a = sint b)"
| "cypher_eq (VInteger a) (VNum b) = (sint a = b)"
| "cypher_eq (VDateTime a) (VDateTime b) = (a = b)"
| "cypher_eq _ _ = False"

definition has_prop :: "node \<Rightarrow> string \<Rightarrow> val \<Rightarrow> bool" where
  "has_prop n k v = (case map_of (nprops n) k of Some x \<Rightarrow> cypher_eq x v | None \<Rightarrow> False)"

text \<open>\<^verbatim>\<open>MATCH (n:Label {k1: v1, ...})\<close>: the nodes of the label that have every property.\<close>

definition match_nodes :: "label \<Rightarrow> obj \<Rightarrow> graph \<Rightarrow> node list" where
  "match_nodes l pat g =
     filter (\<lambda>n. nlabel n = l \<and> list_all (\<lambda>(k, v). has_prop n k v) pat) (nodes g)"

text \<open>
  \<^verbatim>\<open>MATCH (u:User)-[:T]->(x:Label {...})\<close>: one row for every relationship of type \<open>T\<close>
  from a user to a matching node.
\<close>

definition match_owned :: "reltype \<Rightarrow> label \<Rightarrow> obj \<Rightarrow> graph \<Rightarrow> (node \<times> node) list" where
  "match_owned t l pat g =
     [(u, x). x \<leftarrow> match_nodes l pat g, u \<leftarrow> match_nodes User [] g, r \<leftarrow> rels g,
              r = (nid u, t, nid x)]"

text \<open>
  \<^verbatim>\<open>s.expires <= datetime(...)\<close>: a temporal value is compared by instant; a missing
  property, and a value of another type (such as the string that \<^verbatim>\<open>format.to\<close> makes of a
  \<^verbatim>\<open>Date\<close>) cannot be compared with a temporal value, and the comparison is \<^verbatim>\<open>null\<close>.
\<close>

fun le_datetime :: "val option \<Rightarrow> int \<Rightarrow> bool option" where
  "le_datetime (Some (VDateTime e)) now = Some (e \<le> now)"
| "le_datetime _ now = None"

text \<open>
  A property holds a boolean, a number, a string or a temporal value. Setting a property to
  \<^verbatim>\<open>null\<close> removes it; a nested map (also the driver's rendering of a \<^verbatim>\<open>Date\<close> object that
  no \<^verbatim>\<open>format.to\<close> has converted) is refused by the store.
\<close>

fun storable :: "val \<Rightarrow> bool" where
  "storable (VBool _) = True"
| "storable (VNum _) = True"
| "storable (VStr _) = True"
| "storable (VInteger _) = True"
| "storable (VDateTime _) = True"
| "storable _ = False"

definition storable_map :: "obj \<Rightarrow> bool" where
  "storable_map m = list_all (\<lambda>(k, v). v = VNull \<or> storable v) m"

text \<open>\<^verbatim>\<open>SET n += map\<close> on the properties of a node; \<^verbatim>\<open>SET n = map\<close> starts from none.\<close>

fun merge_props :: "obj \<Rightarrow> obj \<Rightarrow> obj" where
  "merge_props ps [] = ps"
| "merge_props ps ((k, v) # m) =
     merge_props (if v = VNull then AList.delete k ps else AList.update k v ps) m"

definition create_node :: "label \<Rightarrow> obj \<Rightarrow> graph \<Rightarrow> graph" where
  "create_node l ps g =
     g\<lparr>nodes := nodes g @ [\<lparr>nid = next_id g, nlabel = l, nprops = ps\<rparr>],
       next_id := Suc (next_id g)\<rparr>"

definition set_nodes :: "nat list \<Rightarrow> (obj \<Rightarrow> obj) \<Rightarrow> graph \<Rightarrow> graph" where
  "set_nodes ids f g =
     g\<lparr>nodes := map (\<lambda>n. if nid n \<in> set ids then n\<lparr>nprops := f (nprops n)\<rparr> else n) (nodes g)\<rparr>"

text \<open>\<^verbatim>\<open>DETACH DELETE\<close> removes the nodes and every relationship that touches one of them.\<close>

definition detach_delete :: "nat list \<Rightarrow> graph \<Rightarrow> graph" where
  "detach_delete ids g =
     g\<lparr>nodes := filter (\<lambda>n. nid n \<notin> set ids) (nodes g),
       rels := filter (\<lambda>(a, t, b). a \<notin> set ids \<and> b \<notin> set ids) (rels g)\<rparr>"

text \<open>\<^verbatim>\<open>MERGE (u)-[:T]->(x)\<close> creates the relationship unless one exists.\<close>

definition merge_rel :: "nat \<times> reltype \<times> nat \<Rightarrow> graph \<Rightarrow> graph" where
  "merge_rel r g = (if r \<in> set (rels g) then g else g\<lparr>rels := rels g @ [r]\<rparr>)"

text \<open>
  \<^verbatim>\<open>MERGE (n:Label {k1: v1, k2: v2})\<close> binds \<open>n\<close> to every matching node, or creates one
  with exactly these properties when there is none.
\<close>

definition merge_node :: "label \<Rightarrow> obj \<Rightarrow> graph \<Rightarrow> graph \<times> node list" where
  "merge_node l pat g =
     (if match_nodes l pat g = []
      then (create_node l pat g, [\<lparr>nid = next_id g, nlabel = l, nprops = pat\<rparr>])
      else (g, match_nodes l pat g))"

subsection \<open>The statements of the adapter\<close>

text \<open>
  Each statement takes the parameter bag and the graph and returns the new graph with the
  rows of its \<^verbatim>\<open>RETURN\<close> (a row maps column names to values), or the error that aborts
  the transaction. A clause runs once for every row of the clause before it.
\<close>

text \<open>\<^verbatim>\<open>CREATE (u:User $data)\<close>\<close>

definition stmt_createUser :: "obj \<Rightarrow> graph \<Rightarrow> error + graph \<times> obj list" where
  "stmt_createUser ps g =
     (case param ps ''data'' of
        VMap data \<Rightarrow>
          if storable_map data then Inr (create_node User (merge_props [] data) g, [])
          else Inl StoreError
      | _ \<Rightarrow> Inl StoreError)"

text \<open>\<^verbatim>\<open>MATCH (u:User { id: $id }) RETURN u{.*}\<close>\<close>

definition stmt_getUser :: "obj \<Rightarrow> graph \<Rightarrow> obj list" where
  "stmt_getUser ps g =
     map (\<lambda>u. [(''u'', VMap (nprops u))]) (match_nodes User [(''id'', param ps ''id'')] g)"

text \<open>
  \<^verbatim>\<open>MATCH (u:User)-[:HAS_ACCOUNT]->(a:Account { provider: $provider,
  providerAccountId: $providerAccountId }) RETURN u{.*}\<close>
\<close>

definition stmt_getUserByAccount :: "obj \<Rightarrow> graph \<Rightarrow> obj list" where
  "stmt_getUserByAccount ps g =
     map (\<lambda>(u, a). [(''u'', VMap (nprops u))])
       (match_owned HAS_ACCOUNT Account
          [(''provider'', param ps ''provider''),
           (''providerAccountId'', param ps ''providerAccountId'')] g)"


text \<open>
  \<^verbatim>\<open>MATCH (u:User { id: $data.id }) WITH u, u{.*} AS properties DETACH DELETE u
  RETURN properties\<close>
\<close>

definition stmt_deleteUser :: "obj \<Rightarrow> graph \<Rightarrow> error + graph \<times> obj list" where
  "stmt_deleteUser ps g =
     (let us = match_nodes User [(''id'', get_field (param ps ''data'') ''id'')] g
      in Inr (detach_delete (map nid us) g, map (\<lambda>u. [(''properties'', VMap (nprops u))]) us))"

text \<open>
  \<^verbatim>\<open>MATCH (u:User { id: $data.userId })
  MERGE (a:Account { providerAccountId: $data.a.providerAccountId, provider: $data.a.provider })
  SET a += $data.a
  MERGE (u)-[:HAS_ACCOUNT]->(a)\<close>.
  Without a user there is no row and nothing runs. \<^verbatim>\<open>MERGE\<close> refuses a \<^verbatim>\<open>null\<close> property.
  Its pattern does not depend on the row, so every row binds the same accounts.
  \<open>link_writes\<close> is what the three writing clauses do for the rows \<open>us\<close> of the
  \<^verbatim>\<open>MATCH\<close>: the node \<^verbatim>\<open>MERGE\<close>, the \<^verbatim>\<open>SET\<close> on every account it binds, and the
  relationship \<^verbatim>\<open>MERGE\<close> for every pair of a user and an account.
\<close>

definition link_writes :: "obj \<Rightarrow> obj \<Rightarrow> node list \<Rightarrow> graph \<Rightarrow> graph" where
  "link_writes pat m us g =
     (let (g1, as) = merge_node Account pat g;
          g2 = set_nodes (map nid as) (\<lambda>ps. merge_props ps m) g1
      in fold merge_rel [(nid u, HAS_ACCOUNT, nid x). u \<leftarrow> us, x \<leftarrow> as] g2)"

definition stmt_linkAccount :: "obj \<Rightarrow> graph \<Rightarrow> error + graph \<times> obj list" where
  "stmt_linkAccount ps g =
     (let data = param ps ''data'';
          a = get_field data ''a'';
          pat = [(''providerAccountId'', get_field a ''providerAccountId''),
                 (''provider'', get_field a ''provider'')];
          us = match_nodes User [(''id'', get_field data ''userId'')] g
      in if us = [] then Inr (g, [])
         else if \<not> list_all (\<lambda>(k, v). storable v) pat then Inl StoreError
         else case a of
             VMap m \<Rightarrow>
               if storable_map m then Inr (link_writes pat m us g, [])
               else Inl StoreError
           | _ \<Rightarrow> Inl StoreError)"

text \<open>
  \<^verbatim>\<open>MATCH (u:User { id: $data.userId }) CREATE (s:Session) SET s = $data.s
  CREATE (u)-[:HAS_SESSION]->(s)\<close>
\<close>

definition stmt_createSession :: "obj \<Rightarrow> graph \<Rightarrow> error + graph \<times> obj list" where
  "stmt_createSession ps g =
     (let data = param ps ''data'';
          us = match_nodes User [(''id'', get_field data ''userId'')] g
      in if us = [] then Inr (g, [])
         else case get_field data ''s'' of
             VMap m \<Rightarrow>
               if storable_map m
               then Inr (fold (\<lambda>u h. (create_node Session (merge_props [] m) h)
                                       \<lparr>rels := rels h @ [(nid u, HAS_SESSION, next_id h)]\<rparr>) us g, [])
               else Inl StoreError
           | _ \<Rightarrow> Inl StoreError)"

text \<open>
  \<^verbatim>\<open>OPTIONAL MATCH (u:User)-[:HAS_SESSION]->(s:Session { sessionToken: $data.sessionToken })
  WHERE s.expires <= datetime($data.now)
  DETACH DELETE s
  WITH count(s) AS c
  MATCH (u:User)-[:HAS_SESSION]->(s:Session { sessionToken: $data.sessionToken })
  RETURN s { .*, userId: u.id } AS session, u{.*} AS user\<close>.
  The optional match keeps the rows on which the comparison is true, or one row of
  \<^verbatim>\<open>null\<close>, whose deletion does nothing; \<^verbatim>\<open>count\<close> leaves one row, and the second match
  reads the graph after the deletion. \<open>now\<close> is the instant of \<^verbatim>\<open>datetime($data.now)\<close>.
\<close>

definition stmt_getSessionAndUser :: "int \<Rightarrow> obj \<Rightarrow> graph \<Rightarrow> error + graph \<times> obj list" where
  "stmt_getSessionAndUser now ps g =
     (let pat = [(''sessionToken'', get_field (param ps ''data'') ''sessionToken'')];
          expired = filter (\<lambda>(u, s). le_datetime (map_of (nprops s) ''expires'') now = Some True)
                      (match_owned HAS_SESSION Session pat g);
          g1 = detach_delete (map (\<lambda>(u, s). nid s) expired) g
      in Inr (g1,
              map (\<lambda>(u, s). [(''session'', VMap (AList.update ''userId'' (node_prop u ''id'') (nprops s))),
                              (''user'', VMap (nprops u))])
                (match_owned HAS_SESSION Session pat g1)))"

text \<open>
  \<^verbatim>\<open>MATCH (u:User)-[:HAS_SESSION]->(s:Session { sessionToken: $data.sessionToken })
  WITH u, s, properties(s) AS properties DETACH DELETE s
  RETURN properties { .*, userId: u.id }\<close>
\<close>

definition stmt_deleteSession :: "obj \<Rightarrow> graph \<Rightarrow> error + graph \<times> obj list" where
  "stmt_deleteSession ps g =
     (let pairs = match_owned HAS_SESSION Session
                    [(''sessionToken'', get_field (param ps ''data'') ''sessionToken'')] g
      in Inr (detach_delete (map (\<lambda>(u, s). nid s) pairs) g,
              map (\<lambda>(u, s). [(''properties { .*, userId: u.id }'',
                               VMap (AList.update ''userId'' (node_prop u ''id'') (nprops s)))]) pairs))"

text \<open>
  \<^verbatim>\<open>MERGE (v:VerificationToken { identifier: $data.identifier, token: $data.token })
  SET v = $data\<close>
\<close>

definition stmt_createVerificationToken :: "obj \<Rightarrow> graph \<Rightarrow> error + graph \<times> obj list" where
  "stmt_createVerificationToken ps g =
     (let data = param ps ''data'';
          pat = [(''identifier'', get_field data ''identifier''),
                 (''token'', get_field data ''token'')]
      in if \<not> list_all (\<lambda>(k, v). storable v) pat then Inl StoreError
         else case data of
             VMap m \<Rightarrow>
               if storable_map m
               then (let (g1, vs) = merge_node VerificationToken pat g
                     in Inr (set_nodes (map nid vs) (\<lambda>ps. merge_props [] m) g1, []))
               else Inl StoreError
           | _ \<Rightarrow> Inl StoreError)"

text \<open>
  \<^verbatim>\<open>MATCH (v:VerificationToken { identifier: $data.identifier, token: $data.token })
  WITH v, properties(v) as properties DETACH DELETE v RETURN properties\<close>
\<close>

definition stmt_useVerificationToken :: "obj \<Rightarrow> graph \<Rightarrow> error + graph \<times> obj list" where
  "stmt_useVerificationToken ps g =
     (let data = param ps ''data'';
          vs = match_nodes VerificationToken
                 [(''identifier'', get_field data ''identifier''),
                  (''token'', get_field data ''token'')] g
      in Inr (detach_delete (map nid vs) g, map (\<lambda>v. [(''properties'', VMap (nprops v))]) vs))"

section \<open>The transaction facade: \<^verbatim>\<open>client\<close>\<close>

text \<open>
  \<^verbatim>\<open>format.from\<close> takes an object or nothing; \<open>as_obj\<close> reads a value of a row as its
  argument (the rows of the adapter hold maps only).
\<close>

fun as_obj :: "val \<Rightarrow> obj option" where
  "as_obj (VMap m) = Some m"
| "as_obj _ = None"

text \<open>
  \<^verbatim>\<open>read\<close> runs the statement on the values as they are and decodes the first column of
  the first row: \<^verbatim>\<open>format.from(result?.records[0]?.get(0)) ?? null\<close>.
\<close>

definition client_read :: "platform \<Rightarrow> (obj \<Rightarrow> graph \<Rightarrow> obj list) \<Rightarrow> obj \<Rightarrow> graph \<Rightarrow> obj option" where
  "client_read P statement values g =
     format_from P
       (case statement values g of
          [] \<Rightarrow> None
        | record # _ \<Rightarrow> (case record of [] \<Rightarrow> None | (_, v) # _ \<Rightarrow> as_obj v))"

text \<open>
  \<^verbatim>\<open>write\<close> runs the statement on \<^verbatim>\<open>{ data: format.to(values) }\<close> and decodes the first
  row as an object: \<^verbatim>\<open>format.from(result?.records[0]?.toObject())\<close>. An error leaves the
  graph as it was.
\<close>

definition client_write ::
  "platform \<Rightarrow> (obj \<Rightarrow> graph \<Rightarrow> error + graph \<times> obj list) \<Rightarrow> obj \<Rightarrow> graph
     \<Rightarrow> error + graph \<times> obj option" where
  "client_write P statement values g =
     (case format_to P values of
        Inl e \<Rightarrow> Inl e
      | Inr d \<Rightarrow>
          (case statement [(''data'', VMap d)] g of
             Inl e \<Rightarrow> Inl e
           | Inr (g', records) \<Rightarrow>
               Inr (g', format_from P (case records of [] \<Rightarrow> None | record # _ \<Rightarrow> Some record))))"

section \<open>The adapter\<close>

text \<open>
  \<^verbatim>\<open>{ id: crypto.randomUUID(), ...data }\<close>: the fields of \<open>data\<close> are assigned in order
  onto the object that holds the generated id; \<open>uuid\<close> is the result of
  \<^verbatim>\<open>crypto.randomUUID()\<close>.
\<close>

definition spread :: "obj \<Rightarrow> obj \<Rightarrow> obj" where
  "spread base data = fold (\<lambda>(k, v) acc. AList.update k v acc) data base"

definition createUser :: "platform \<Rightarrow> string \<Rightarrow> obj \<Rightarrow> graph \<Rightarrow> error + graph \<times> obj" where
  "createUser P uuid data g =
     (let user = spread [(''id'', VStr uuid)] data
      in case client_write P stmt_createUser user g of
           Inl e \<Rightarrow> Inl e
         | Inr (g', _) \<Rightarrow> Inr (g', user))"

definition getUser :: "platform \<Rightarrow> string \<Rightarrow> graph \<Rightarrow> obj option" where
  "getUser P uid g = client_read P stmt_getUser [(''id'', VStr uid)] g"

definition getUserByAccount :: "platform \<Rightarrow> obj \<Rightarrow> graph \<Rightarrow> obj option" where
  "getUserByAccount P provider_providerAccountId g =
     client_read P stmt_getUserByAccount provider_providerAccountId g"


definition deleteUser :: "platform \<Rightarrow> string \<Rightarrow> graph \<Rightarrow> error + graph \<times> obj option" where
  "deleteUser P uid g = client_write P stmt_deleteUser [(''id'', VStr uid)] g"

text \<open>\<^verbatim>\<open>const { userId, ...a } = data\<close>; a missing \<^verbatim>\<open>userId\<close> reaches the store as \<^verbatim>\<open>null\<close>.\<close>

definition linkAccount :: "platform \<Rightarrow> obj \<Rightarrow> graph \<Rightarrow> error + graph \<times> obj" where
  "linkAccount P data g =
     (let userId = get_field (VMap data) ''userId'';
          a = AList.delete ''userId'' data
      in case client_write P stmt_linkAccount [(''userId'', userId), (''a'', VMap a)] g of
           Inl e \<Rightarrow> Inl e
         | Inr (g', _) \<Rightarrow> Inr (g', data))"

text \<open>\<^verbatim>\<open>const { userId, ...s } = format.to(data)\<close>\<close>

definition createSession :: "platform \<Rightarrow> obj \<Rightarrow> graph \<Rightarrow> error + graph \<times> obj" where
  "createSession P data g =
     (case format_to P data of
        Inl e \<Rightarrow> Inl e
      | Inr d \<Rightarrow>
          (let userId = get_field (VMap d) ''userId'';
               s = AList.delete ''userId'' d
           in case client_write P stmt_createSession [(''userId'', userId), (''s'', VMap s)] g of
                Inl e \<Rightarrow> Inl e
              | Inr (g', _) \<Rightarrow> Inr (g', data)))"

text \<open>
  \<open>truthy\<close> is JavaScript's truthiness; \<open>opt_field\<close> is \<^verbatim>\<open>result?.key\<close>, with \<^verbatim>\<open>null\<close>
  standing for \<^verbatim>\<open>undefined\<close> as well. \<open>now\<close> is the instant of \<^verbatim>\<open>new Date()\<close>.
\<close>

fun truthy :: "val \<Rightarrow> bool" where
  "truthy VNull = False"
| "truthy (VBool b) = b"
| "truthy (VNum n) = (n \<noteq> 0)"
| "truthy (VStr s) = (s \<noteq> [])"
| "truthy _ = True"

fun opt_field :: "obj option \<Rightarrow> string \<Rightarrow> val" where
  "opt_field None k = VNull"
| "opt_field (Some r) k = get_field (VMap r) k"

record session_and_user =
  session :: "obj option"
  user :: "obj option"

definition getSessionAndUser ::
  "platform \<Rightarrow> int \<Rightarrow> string \<Rightarrow> graph \<Rightarrow> error + graph \<times> session_and_user option" where
  "getSessionAndUser P now sessionToken g =
     (case client_write P (stmt_getSessionAndUser now)
             [(''sessionToken'', VStr sessionToken), (''now'', VStr (toISOString P now))] g of
        Inl e \<Rightarrow> Inl e
      | Inr (g', result) \<Rightarrow>
          if \<not> truthy (opt_field result ''session'') \<or> \<not> truthy (opt_field result ''user'')
          then Inr (g', None)
          else Inr (g', Some \<lparr>session = format_from P (as_obj (opt_field result ''session'')),
                               user = format_from P (as_obj (opt_field result ''user''))\<rparr>))"

definition deleteSession :: "platform \<Rightarrow> string \<Rightarrow> graph \<Rightarrow> error + graph \<times> obj option" where
  "deleteSession P sessionToken g =
     client_write P stmt_deleteSession [(''sessionToken'', VStr sessionToken)] g"

definition createVerificationToken :: "platform \<Rightarrow> obj \<Rightarrow> graph \<Rightarrow> error + graph \<times> obj" where
  "createVerificationToken P data g =
     (case client_write P stmt_createVerificationToken data g of
        Inl e \<Rightarrow> Inl e
      | Inr (g', _) \<Rightarrow> Inr (g', data))"

text \<open>\<^verbatim>\<open>format.from(result?.properties)\<close>\<close>

definition useVerificationToken ::
  "platform \<Rightarrow> string \<Rightarrow> string \<Rightarrow> graph \<Rightarrow> error + graph \<times> obj option" where
  "useVerificationToken P identifier token g =
     (case client_write P stmt_useVerificationToken
             [(''identifier'', VStr identifier), (''token'', VStr token)] g of
        Inl e \<Rightarrow> Inl e
      | Inr (g', result) \<Rightarrow> Inr (g', format_from P (as_obj (opt_field result ''properties''))))"

section \<open>Predicates of the statements\<close>

text \<open>
  \<open>needs c r\<close> is a syntactic check that every match of \<open>r\<close> holds the character \<open>c\<close>.
\<close>

fun needs :: "char \<Rightarrow> re \<Rightarrow> bool" where
  "needs c (Lit x) = (c = x)"
| "needs c (Seq a b) = (needs c a \<or> needs c b)"
| "needs c (Alt a b) = (needs c a \<and> needs c b)"
| "needs c _ = False"

text \<open>
  A value is canonical when the inbound coercion has nothing left to do on it: it is not a
  store-native integer, and not a string (or store-native temporal value) that \<^verbatim>\<open>isDate\<close>
  takes for a date.
\<close>

fun canonical :: "platform \<Rightarrow> val \<Rightarrow> bool" where
  "canonical P (VInteger w) = False"
| "canonical P (VStr s) = (\<not> (isoDateRE_test s \<and> Date_parse P s \<noteq> None))"
| "canonical P (VDateTime d) = (\<not> isDate P (VDateTime d))"
| "canonical P v = True"

text \<open>
  A field of a canonical record holds a valid timestamp, or a value that is not a timestamp:
  not a string that \<^verbatim>\<open>isDate\<close> takes for a date, and not one of the store's own integers
  or temporal values, which no caller of the adapter writes.
\<close>

fun plain :: "platform \<Rightarrow> val \<Rightarrow> bool" where
  "plain P (VDate t) = (t \<noteq> None)"
| "plain P (VStr s) = (\<not> (isoDateRE_test s \<and> Date_parse P s \<noteq> None))"
| "plain P (VInteger w) = False"
| "plain P (VDateTime d) = False"
| "plain P v = True"

text \<open>The instants of the valid timestamps of a record.\<close>

fun timestamps :: "obj \<Rightarrow> int list" where
  "timestamps [] = []"
| "timestamps ((key, value) # object) =
     (case value of VDate (Some t) \<Rightarrow> t # timestamps object | _ \<Rightarrow> timestamps object)"

text \<open>Concrete stores, for evaluation.\<close>

definition g_empty :: graph where
  "g_empty = \<lparr>nodes = [], rels = [], next_id = 0\<rparr>"

definition g_token :: graph where
  "g_token =
     \<lparr>nodes = [\<lparr>nid = 0, nlabel = VerificationToken,
                nprops = [(''identifier'', VStr ''a@x''), (''token'', VStr ''t1''),
                          (''expires'', VStr ''2020-01-01T00:00:00.000Z'')]\<rparr>],
      rels = [], next_id = 1\<rparr>"

definition g_user :: graph where
  "g_user =
     \<lparr>nodes = [\<lparr>nid = 0, nlabel = User,
                nprops = [(''id'', VStr ''u1''), (''name'', VStr ''Ann''), (''email'', VStr ''a@x'')]\<rparr>],
      rels = [], next_id = 1\<rparr>"

definition g_linked :: graph where
  "g_linked =
     \<lparr>nodes = [\<lparr>nid = 0, nlabel = User,
                nprops = [(''id'', VStr ''u1''), (''name'', VStr ''Ann''), (''email'', VStr ''a@x'')]\<rparr>,
              \<lparr>nid = 1, nlabel = Account,
                nprops = [(''providerAccountId'', VStr ''42''), (''provider'', VStr ''github'')]\<rparr>,
              \<lparr>nid = 2, nlabel = Session,
                nprops = [(''sessionToken'', VStr ''tok''),
                          (''expires'', VStr ''2020-01-01T00:00:00.000Z'')]\<rparr>],
      rels = [(0, HAS_ACCOUNT, 1), (0, HAS_SESSION, 2)], next_id = 3\<rparr>"

definition g_orphans :: graph where
  "g_orphans =
     \<lparr>nodes = [\<lparr>nid = 1, nlabel = Account,
                nprops = [(''providerAccountId'', VStr ''42''), (''provider'', VStr ''github'')]\<rparr>,
              \<lparr>nid = 2, nlabel = Session,
                nprops = [(''sessionToken'', VStr ''tok''),
                          (''expires'', VStr ''2020-01-01T00:00:00.000Z'')]\<rparr>],
      rels = [], next_id = 3\<rparr>"

definition g_session :: graph where
  "g_session =
     \<lparr>nodes = [\<lparr>nid = 0, nlabel = User,
                nprops = [(''id'', VStr ''u1''), (''name'', VStr ''Ann''), (''email'', VStr ''a@x'')]\<rparr>,
              \<lparr>nid = 1, nlabel = Session,
                nprops = [(''sessionToken'', VStr ''tok''),
                          (''expires'', VStr ''2020-01-01T00:00:00.000Z'')]\<rparr>],
      rels = [(0, HAS_SESSION, 1)], next_id = 2\<rparr>"

definition g_native :: graph where
  "g_native =
     \<lparr>nodes = [\<lparr>nid = 0, nlabel = User,
                nprops = [(''id'', VStr ''u1''), (''name'', VStr ''Ann''), (''email'', VStr ''a@x'')]\<rparr>,
              \<lparr>nid = 1, nlabel = Session,
                nprops = [(''sessionToken'', VStr ''tok''), (''expires'', VDateTime 1577836800000)]\<rparr>],
      rels = [(0, HAS_SESSION, 1)], next_id = 2\<rparr>"

definition g_account :: graph where
  "g_account =
     \<lparr>nodes = [\<lparr>nid = 0, nlabel = User,
                nprops = [(''id'', VStr ''u1''), (''name'', VStr ''Ann''), (''email'', VStr ''a@x'')]\<rparr>,
              \<lparr>nid = 1, nlabel = Account,
                nprops = [(''providerAccountId'', VStr ''42''), (''provider'', VStr ''github''),
                          (''type'', VStr ''oauth'')]\<rparr>],
      rels = [(0, HAS_ACCOUNT, 1)], next_id = 2\<rparr>"

section \<open>Decimal numerals and the date pattern\<close>

lemma digit_char_in: "d < 10 \<Longrightarrow> digit_char d \<in> set ''0123456789''"
proof -
  assume "d < 10"
  then have "d \<in> {0,1,2,3,4,5,6,7,8,9}" by auto
  then show ?thesis by (auto simp: digit_char_def)
qed

lemma digit_val_digit_char: "d < 10 \<Longrightarrow> digit_val (digit_char d) = d"
proof -
  assume "d < 10"
  then have "d \<in> {0,1,2,3,4,5,6,7,8,9}" by auto
  then show ?thesis by (auto simp: digit_char_def digit_val_def)
qed

lemma set_show_nat: "set (show_nat n) \<subseteq> set ''0123456789''"
proof (induction n rule: show_nat.induct)
  case (1 n)
  show ?case
  proof (cases "n < 10")
    case True
    then show ?thesis using digit_char_in [of n] by (subst show_nat.simps) simp
  next
    case False
    have "n mod 10 < 10" by simp
    then have "digit_char (n mod 10) \<in> set ''0123456789''" by (rule digit_char_in)
    with False 1 show ?thesis by (subst show_nat.simps) auto
  qed
qed

lemma show_nat_nonempty: "show_nat n \<noteq> []"
  by (subst show_nat.simps) simp

lemma read_nat_snoc: "read_nat (xs @ [c]) = 10 * read_nat xs + digit_val c"
  by (simp add: read_nat_def)

lemma read_nat_show_nat: "read_nat (show_nat n) = n"
proof (induction n rule: show_nat.induct)
  case (1 n)
  show ?case
  proof (cases "n < 10")
    case True
    then show ?thesis
      by (subst show_nat.simps) (simp add: read_nat_def digit_val_digit_char)
  next
    case False
    then have "read_nat (show_nat n) =
        10 * read_nat (show_nat (n div 10)) + digit_val (digit_char (n mod 10))"
      by (subst show_nat.simps) (simp add: read_nat_snoc)
    also have "\<dots> = 10 * (n div 10) + n mod 10"
      using 1 False by (simp add: digit_val_digit_char)
    finally show ?thesis by simp
  qed
qed

lemma read_int_show_int: "read_int (show_int i) = i"
proof (cases "i < 0")
  case True
  then show ?thesis by (simp add: read_int_def show_int_def read_nat_show_nat)
next
  case False
  obtain c cs where cs: "show_nat (nat i) = c # cs"
    using show_nat_nonempty [of "nat i"] by (cases "show_nat (nat i)") auto
  have "c \<in> set ''0123456789''" using set_show_nat [of "nat i"] cs by auto
  then have "c \<noteq> CHR ''-''" by auto
  moreover have "read_nat (c # cs) = nat i" using read_nat_show_nat [of "nat i"] cs by simp
  ultimately show ?thesis using False cs by (simp add: read_int_def show_int_def)
qed

lemma T_notin_show_nat: "CHR ''T'' \<notin> set (show_nat n)"
proof
  assume "CHR ''T'' \<in> set (show_nat n)"
  then have "CHR ''T'' \<in> set ''0123456789''"
    using set_show_nat [of n] by (rule subsetD [rotated])
  then show False by simp
qed

lemma T_notin_show_int: "CHR ''T'' \<notin> set (show_int i)"
  by (simp add: show_int_def T_notin_show_nat)

lemma digits1_suffix: "t \<in> set (digits1 s) \<Longrightarrow> set t \<subseteq> set s"
  by (induction s) (auto split: if_splits)

lemma re_match_suffix: "t \<in> set (re_match r s) \<Longrightarrow> set t \<subseteq> set s"
proof (induction r arbitrary: s t)
  case Digits1
  then show ?case using digits1_suffix by simp
next
  case (Seq a b)
  from Seq.prems obtain u where u: "u \<in> set (re_match a s)" "t \<in> set (re_match b u)"
    by auto
  have "set t \<subseteq> set u" using Seq.IH(2) u(2) .
  moreover have "set u \<subseteq> set s" using Seq.IH(1) u(1) .
  ultimately show ?case by blast
next
  case (Alt a b)
  then have "t \<in> set (re_match a s) \<or> t \<in> set (re_match b s)" by simp
  then show ?case using Alt.IH by blast
qed (auto split: list.splits if_splits)

lemma re_match_needs: "needs c r \<Longrightarrow> t \<in> set (re_match r s) \<Longrightarrow> c \<in> set s"
proof (induction r arbitrary: s t)
  case (Seq a b)
  from Seq.prems(2) obtain u where u: "u \<in> set (re_match a s)" "t \<in> set (re_match b u)"
    by auto
  show ?case
  proof (cases "needs c a")
    case True
    then show ?thesis using Seq.IH(1) u(1) by blast
  next
    case False
    then have "needs c b" using Seq.prems(1) by simp
    then have "c \<in> set u" using Seq.IH(2) u(2) by blast
    then show ?thesis using re_match_suffix [OF u(1)] by auto
  qed
next
  case (Alt a b)
  then show ?case by auto
qed (auto split: list.splits if_splits)

lemma re_test_needs: "needs c r \<Longrightarrow> re_test r s \<Longrightarrow> c \<in> set s"
proof (induction s)
  case Nil
  then obtain t where "t \<in> set (re_match r [])" by (cases "re_match r []") auto
  then show ?case using re_match_needs Nil(1) by blast
next
  case (Cons x xs)
  show ?case
  proof (cases "re_match r (x # xs) = []")
    case True
    then show ?thesis using Cons by simp
  next
    case False
    then obtain t where "t \<in> set (re_match r (x # xs))" by (cases "re_match r (x # xs)") auto
    then show ?thesis using re_match_needs Cons.prems(1) by blast
  qed
qed

lemma needs_T: "needs CHR ''T'' isoDateRE"
  by (simp add: isoDateRE_def re_date_hm_def re_sec_def re_frac_def re_zone_def)

lemma isoDateRE_test_T: "isoDateRE_test s \<Longrightarrow> CHR ''T'' \<in> set s"
  unfolding isoDateRE_test_def using re_test_needs [OF needs_T] .

lemma not_iso_empty: "\<not> isoDateRE_test []"
  using isoDateRE_test_T [of "[]"] by auto

lemma not_iso_Integer: "\<not> isoDateRE_test (Integer_toString w)"
proof
  assume "isoDateRE_test (Integer_toString w)"
  then have "CHR ''T'' \<in> set (show_int (sint w))"
    unfolding Integer_toString_def by (rule isoDateRE_test_T)
  then show False using T_notin_show_int [of "sint w"] by simp
qed

lemma from_value_Integer:
  "from_value P (VInteger w) =
     (if inSafeRange w then VNum (toNumber w) else VStr (Integer_toString w))"
  by (simp add: from_value_def isInt_def not_iso_Integer)

lemma from_value_Str:
  "from_value P (VStr s) =
     (if isoDateRE_test s \<and> Date_parse P s \<noteq> None then VDate (Date_parse P s) else VStr s)"
  using not_iso_empty by (auto simp: from_value_def isInt_def)

lemma from_value_canonical: "canonical P v \<Longrightarrow> from_value P v = v"
  by (cases v) (auto simp: from_value_def isInt_def)

lemma canonical_from_value: "canonical P (from_value P v)"
proof (cases v)
  case (VInteger w)
  then show ?thesis by (simp add: from_value_Integer not_iso_Integer)
next
  case (VStr s)
  then show ?thesis by (simp add: from_value_Str)
next
  case (VDateTime d)
  then show ?thesis by (cases "isDate P (VDateTime d)") (simp_all add: from_value_def isInt_def)
qed (simp_all add: from_value_def isInt_def)

lemma from_value_idem: "from_value P (from_value P v) = from_value P v"
  by (rule from_value_canonical) (rule canonical_from_value)

lemma from_value_VMap: "from_value P (VMap m) = VMap m"
  by (simp add: from_value_def isInt_def)

lemma format_from_nth:
  "i < length object \<Longrightarrow> object ! i = (k, v) \<Longrightarrow>
     \<exists>res. format_from P (Some object) = Some res \<and> length res = length object \<and>
           res ! i = (k, from_value P v)"
  by simp

section \<open>The date-time strings of the concrete platform\<close>

text \<open>
  Every string that \<open>ecma_toISOString\<close> writes holds a date-time in the form of the
  pattern's first alternative: the month and the day that \<open>civil_from_days\<close> computes, and
  the hour, minute and second of the day, start with a character of the class the pattern
  asks for, and the year ends with four digits.
\<close>

lemma div_bounds:
  fixes x k :: int
  assumes "0 < k"
  shows "k * (x div k) \<le> x" and "x < k * (x div k) + k"
proof -
  have "x = k * (x div k) + x mod k" by simp
  moreover have "0 \<le> x mod k" "x mod k < k" using assms by simp_all
  ultimately show "k * (x div k) \<le> x" and "x < k * (x div k) + k" by linarith+
qed

lemma civil_from_days_bounds:
  assumes "civil_from_days z = (y, m, d)"
  shows "m < 20 \<and> d < 40"
proof -
  define era where "era = (z + 719468) div 146097"
  define doe where "doe = (z + 719468) - era * 146097"
  define a where "a = doe div 1460"
  define b where "b = doe div 36524"
  define c where "c = doe div 146096"
  define yoe where "yoe = (doe - a + b - c) div 365"
  define q4 where "q4 = yoe div 4"
  define q100 where "q100 = yoe div 100"
  define doy where "doy = doe - (365 * yoe + q4 - q100)"
  define mp where "mp = (5 * doy + 2) div 153"
  define e where "e = (153 * mp + 2) div 5"
  note era = div_bounds [of 146097 "z + 719468", OF zero_less_numeral, folded era_def]
  have doe: "0 \<le> doe" "doe < 146097" unfolding doe_def using era by linarith+
  note a = div_bounds [of 1460 doe, OF zero_less_numeral, folded a_def]
  note b = div_bounds [of 36524 doe, OF zero_less_numeral, folded b_def]
  note c = div_bounds [of 146096 doe, OF zero_less_numeral, folded c_def]
  note yoe = div_bounds [of 365 "doe - a + b - c", OF zero_less_numeral, folded yoe_def]
  note q4 = div_bounds [of 4 yoe, OF zero_less_numeral, folded q4_def]
  note q100 = div_bounds [of 100 yoe, OF zero_less_numeral, folded q100_def]
  note mp = div_bounds [of 153 "5 * doy + 2", OF zero_less_numeral, folded mp_def]
  note e = div_bounds [of 5 "153 * mp + 2", OF zero_less_numeral, folded e_def]
  have a0: "0 \<le> a" "a \<le> 100" using a doe by linarith+
  have b0: "0 \<le> b" "b \<le> 4" using b doe by linarith+
  have c0: "0 \<le> c" "c \<le> 1" "c \<le> b" using c b doe by linarith+
  have yoe0: "0 \<le> yoe" "yoe \<le> 400" using yoe a a0 b0 c0 doe by linarith+
  have q: "0 \<le> q4" "q100 \<le> 4" using q4 q100 yoe0 by linarith+
  have doy: "doy \<le> 470" unfolding doy_def using yoe a a0 b0 c0 q by linarith
  have mp15: "mp \<le> 15" using mp doy by linarith
  have "fst (snd (civil_from_days z)) = (if mp < 10 then mp + 3 else mp - 9)"
    unfolding e_def mp_def doy_def q100_def q4_def yoe_def c_def b_def a_def doe_def era_def
    by (simp only: civil_from_days_def Let_def fst_conv snd_conv)
  moreover have "snd (snd (civil_from_days z)) = doy - e + 1"
    unfolding e_def mp_def doy_def q100_def q4_def yoe_def c_def b_def a_def doe_def era_def
    by (simp only: civil_from_days_def Let_def fst_conv snd_conv)
  ultimately have md: "m = (if mp < 10 then mp + 3 else mp - 9)" "d = doy - e + 1"
    by (simp_all only: assms fst_conv snd_conv)
  have "m < 20" using md(1) mp15 by (simp split: if_splits)
  moreover have "d < 40" unfolding md(2) using mp e by linarith
  ultimately show ?thesis by simp
qed

lemma re_test_append: "re_match r ys \<noteq> [] \<Longrightarrow> re_test r (xs @ ys)"
proof (induction xs)
  case Nil
  then show ?case by (cases ys) simp_all
next
  case (Cons x xs)
  then show ?case by simp
qed

lemma not_digit_Z: "\<not> is_digit CHR ''Z''"
  by (simp add: is_digit_def)

lemma iso_tail_match:
  assumes "is_digit y1" "is_digit y2" "is_digit y3" "is_digit y4"
    and "m1 \<in> set ''01''" "is_digit m2"
    and "d1 \<in> set ''0123''" "is_digit d2"
    and "h1 \<in> set ''012''" "is_digit h2"
    and "n1 \<in> set ''012345''" "is_digit n2"
    and "s1 \<in> set ''012345''" "is_digit s2"
    and "is_digit f1" "is_digit f2" "is_digit f3"
  shows "re_match isoDateRE
           ([y1, y2, y3, y4] @ ''-'' @ [m1, m2] @ ''-'' @ [d1, d2] @ ''T'' @ [h1, h2] @ '':'' @
            [n1, n2] @ '':'' @ [s1, s2] @ ''.'' @ [f1, f2, f3] @ ''Z'') \<noteq> []"
  using assms
  by (simp add: isoDateRE_def re_date_hm_def re_sec_def re_frac_def re_zone_def not_digit_Z)

lemma digit_char_values:
  "digit_char 0 = CHR ''0''" "digit_char 1 = CHR ''1''" "digit_char 2 = CHR ''2''"
  "digit_char 3 = CHR ''3''" "digit_char 4 = CHR ''4''" "digit_char 5 = CHR ''5''"
  "digit_char (Suc 0) = CHR ''1''"
  by (simp_all add: digit_char_def)

lemma replicate_2: "replicate 2 x = [x, x]"
  by (simp add: numeral_2_eq_2)

lemma is_digit_digit_char: "k < 10 \<Longrightarrow> is_digit (digit_char k)"
  unfolding is_digit_def by (rule digit_char_in)

lemma digit_char_cls:
  shows "k < 2 \<Longrightarrow> digit_char k \<in> set ''01''"
    and "k < 3 \<Longrightarrow> digit_char k \<in> set ''012''"
    and "k < 4 \<Longrightarrow> digit_char k \<in> set ''0123''"
    and "k < 6 \<Longrightarrow> digit_char k \<in> set ''012345''"
proof -
  show "k < 2 \<Longrightarrow> digit_char k \<in> set ''01''"
  proof -
    assume "k < 2" then have "k = 0 \<or> k = 1" by auto
    then show ?thesis by (auto simp: digit_char_values)
  qed
  show "k < 3 \<Longrightarrow> digit_char k \<in> set ''012''"
  proof -
    assume "k < 3" then have "k = 0 \<or> k = 1 \<or> k = 2" by auto
    then show ?thesis by (auto simp: digit_char_values)
  qed
  show "k < 4 \<Longrightarrow> digit_char k \<in> set ''0123''"
  proof -
    assume "k < 4" then have "k = 0 \<or> k = 1 \<or> k = 2 \<or> k = 3" by auto
    then show ?thesis by (auto simp: digit_char_values)
  qed
  show "k < 6 \<Longrightarrow> digit_char k \<in> set ''012345''"
  proof -
    assume "k < 6" then have "k = 0 \<or> k = 1 \<or> k = 2 \<or> k = 3 \<or> k = 4 \<or> k = 5" by auto
    then show ?thesis by (auto simp: digit_char_values)
  qed
qed

lemma show_nat_1: "n < 10 \<Longrightarrow> show_nat n = [digit_char n]"
  by (subst show_nat.simps) simp

lemma show_nat_2: "10 \<le> n \<Longrightarrow> n < 100 \<Longrightarrow> show_nat n = [digit_char (n div 10), digit_char (n mod 10)]"
  by (subst show_nat.simps) (simp add: show_nat_1)

lemma show_nat_3:
  "100 \<le> n \<Longrightarrow> n < 1000 \<Longrightarrow>
   show_nat n = [digit_char (n div 100), digit_char (n div 10 mod 10), digit_char (n mod 10)]"
proof -
  assume n: "100 \<le> n" "n < 1000"
  then have "10 \<le> n div 10" "n div 10 < 100" by simp_all
  then have "show_nat (n div 10) = [digit_char (n div 10 div 10), digit_char (n div 10 mod 10)]"
    by (rule show_nat_2)
  moreover have "n div 10 div 10 = n div 100" by (simp add: div_mult2_eq)
  ultimately show ?thesis using n by (subst show_nat.simps) simp
qed

lemma pad_2: "n < 100 \<Longrightarrow> pad 2 n = [digit_char (n div 10), digit_char (n mod 10)]"
proof (cases "n < 10")
  case True
  then show ?thesis by (simp add: pad_def show_nat_1 digit_char_values)
next
  case False
  assume "n < 100"
  with False show ?thesis by (simp add: pad_def show_nat_2)
qed

lemma pad_3:
  "n < 1000 \<Longrightarrow>
   pad 3 n = [digit_char (n div 100), digit_char (n div 10 mod 10), digit_char (n mod 10)]"
proof -
  assume n: "n < 1000"
  consider "n < 10" | "10 \<le> n" "n < 100" | "100 \<le> n" by linarith
  then show ?thesis
  proof cases
    case 1
    then show ?thesis by (simp add: pad_def show_nat_1 digit_char_values replicate_2)
  next
    case 2
    then show ?thesis by (simp add: pad_def show_nat_2 digit_char_values)
  next
    case 3
    with n show ?thesis by (simp add: pad_def show_nat_3)
  qed
qed

lemma is_digit_show_nat: "c \<in> set (show_nat n) \<Longrightarrow> is_digit c"
  unfolding is_digit_def by (erule subsetD [OF set_show_nat])

lemma is_digit_pad: "c \<in> set (pad w n) \<Longrightarrow> is_digit c"
proof -
  assume "c \<in> set (pad w n)"
  then have "c = CHR ''0'' \<or> c \<in> set (show_nat n)" by (auto simp: pad_def)
  moreover have "is_digit CHR ''0''" by (simp add: is_digit_def)
  ultimately show ?thesis using is_digit_show_nat by blast
qed

lemma length_pad: "w \<le> length (pad w n)"
  by (simp add: pad_def)

lemma length_four: "length ys = Suc (Suc (Suc (Suc 0))) \<Longrightarrow> \<exists>a b c d. ys = [a, b, c, d]"
  by (auto simp: length_Suc_conv)

lemma last_four:
  assumes "4 \<le> length xs"
  shows "\<exists>pre a b c d. xs = pre @ [a, b, c, d]"
proof -
  let ?k = "length xs - 4"
  have "length (drop ?k xs) = Suc (Suc (Suc (Suc 0)))" using assms by simp
  then obtain a b c d where "drop ?k xs = [a, b, c, d]"
    using length_four by blast
  then have "xs = take ?k xs @ [a, b, c, d]" by (metis append_take_drop_id)
  then show ?thesis by blast
qed

lemma pad_last_four:
  assumes "4 \<le> w"
  shows "\<exists>pre a b c d. pad w n = pre @ [a, b, c, d]
           \<and> is_digit a \<and> is_digit b \<and> is_digit c \<and> is_digit d"
proof -
  have "4 \<le> length (pad w n)" using assms length_pad [of w n] by linarith
  then obtain pre a b c d where p: "pad w n = pre @ [a, b, c, d]" using last_four by blast
  then have "a \<in> set (pad w n)" "b \<in> set (pad w n)" "c \<in> set (pad w n)" "d \<in> set (pad w n)"
    by simp_all
  then have "is_digit a" "is_digit b" "is_digit c" "is_digit d" by (auto intro: is_digit_pad)
  with p show ?thesis by blast
qed

lemma iso_toISOString: "isoDateRE_test (ecma_toISOString t)"
proof -
  define ms where "ms = t mod 86400000"
  obtain y m d where ymd: "civil_from_days (t div 86400000) = (y, m, d)"
    by (cases "civil_from_days (t div 86400000)")
  define year where "year = (if 0 \<le> y \<and> y \<le> 9999 then pad 4 (nat y)
                  else (if y < 0 then CHR ''-'' else CHR ''+'') # pad 6 (nat \<bar>y\<bar>))"
  have str: "ecma_toISOString t =
      year @ ''-'' @ pad 2 (nat m) @ ''-'' @ pad 2 (nat d) @ ''T'' @
         pad 2 (nat (ms div 3600000)) @ '':'' @ pad 2 (nat (ms div 60000 mod 60)) @ '':'' @
         pad 2 (nat (ms div 1000 mod 60)) @ ''.'' @ pad 3 (nat (ms mod 1000)) @ ''Z''"
    by (simp only: ecma_toISOString_def Let_def ymd prod.case ms_def year_def)
  have ms: "0 \<le> ms" "ms < 86400000" unfolding ms_def by simp_all
  have "\<exists>pre y1 y2 y3 y4. year = pre @ [y1, y2, y3, y4]
           \<and> is_digit y1 \<and> is_digit y2 \<and> is_digit y3 \<and> is_digit y4"
  proof (cases "0 \<le> y \<and> y \<le> 9999")
    case True
    then have "year = pad 4 (nat y)" by (simp add: year_def)
    then show ?thesis using pad_last_four [of 4 "nat y"] by simp
  next
    case False
    then have y: "year = (if y < 0 then CHR ''-'' else CHR ''+'') # pad 6 (nat \<bar>y\<bar>)"
      unfolding year_def by (rule if_not_P)
    obtain pre a b c d where p: "pad 6 (nat \<bar>y\<bar>) = pre @ [a, b, c, d]"
      and dg: "is_digit a" "is_digit b" "is_digit c" "is_digit d"
      using pad_last_four [of 6 "nat \<bar>y\<bar>"] by auto
    have "year = ((if y < 0 then CHR ''-'' else CHR ''+'') # pre) @ [a, b, c, d]"
      unfolding y p by simp
    with dg show ?thesis by blast
  qed
  then obtain pre y1 y2 y3 y4 where yr: "year = pre @ [y1, y2, y3, y4]"
    and yd: "is_digit y1" "is_digit y2" "is_digit y3" "is_digit y4"
    by blast
  have mb: "nat m < 20" and db: "nat d < 40"
    using civil_from_days_bounds [OF ymd] by linarith+
  have hb: "nat (ms div 3600000) < 24" using ms by simp
  have nb: "nat (ms div 60000 mod 60) < 60" by simp
  have sb: "nat (ms div 1000 mod 60) < 60" by simp
  have fb: "nat (ms mod 1000) < 1000" by simp
  let ?M = "nat m" and ?D = "nat d" and ?H = "nat (ms div 3600000)"
    and ?N = "nat (ms div 60000 mod 60)" and ?S = "nat (ms div 1000 mod 60)"
    and ?F = "nat (ms mod 1000)"
  have parts: "pad 2 ?M = [digit_char (?M div 10), digit_char (?M mod 10)]"
    "pad 2 ?D = [digit_char (?D div 10), digit_char (?D mod 10)]"
    "pad 2 ?H = [digit_char (?H div 10), digit_char (?H mod 10)]"
    "pad 2 ?N = [digit_char (?N div 10), digit_char (?N mod 10)]"
    "pad 2 ?S = [digit_char (?S div 10), digit_char (?S mod 10)]"
    "pad 3 ?F = [digit_char (?F div 100), digit_char (?F div 10 mod 10), digit_char (?F mod 10)]"
    using mb db hb nb sb fb by (simp_all only: pad_2 pad_3)
  have m1: "digit_char (?M div 10) \<in> set ''01''" using mb by (intro digit_char_cls) simp
  have d1: "digit_char (?D div 10) \<in> set ''0123''" using db by (intro digit_char_cls) simp
  have h1: "digit_char (?H div 10) \<in> set ''012''" using hb by (intro digit_char_cls) simp
  have n1: "digit_char (?N div 10) \<in> set ''012345''" using nb by (intro digit_char_cls) simp
  have s1: "digit_char (?S div 10) \<in> set ''012345''" using sb by (intro digit_char_cls) simp
  have low: "is_digit (digit_char (k mod 10))" for k by (rule is_digit_digit_char) simp
  have f1: "is_digit (digit_char (?F div 100))" using fb by (intro is_digit_digit_char) simp
  have "re_match isoDateRE
           ([y1, y2, y3, y4] @ ''-'' @ [digit_char (?M div 10), digit_char (?M mod 10)] @ ''-'' @
            [digit_char (?D div 10), digit_char (?D mod 10)] @ ''T'' @
            [digit_char (?H div 10), digit_char (?H mod 10)] @ '':'' @
            [digit_char (?N div 10), digit_char (?N mod 10)] @ '':'' @
            [digit_char (?S div 10), digit_char (?S mod 10)] @ ''.'' @
            [digit_char (?F div 100), digit_char (?F div 10 mod 10), digit_char (?F mod 10)] @
            ''Z'') \<noteq> []"
    by (rule iso_tail_match) (rule yd m1 d1 h1 n1 s1 low f1)+
  then have "re_test isoDateRE (pre @
           ([y1, y2, y3, y4] @ ''-'' @ [digit_char (?M div 10), digit_char (?M mod 10)] @ ''-'' @
            [digit_char (?D div 10), digit_char (?D mod 10)] @ ''T'' @
            [digit_char (?H div 10), digit_char (?H mod 10)] @ '':'' @
            [digit_char (?N div 10), digit_char (?N mod 10)] @ '':'' @
            [digit_char (?S div 10), digit_char (?S mod 10)] @ ''.'' @
            [digit_char (?F div 100), digit_char (?F div 10 mod 10), digit_char (?F mod 10)] @
            ''Z''))"
    by (rule re_test_append)
  then show ?thesis
    unfolding isoDateRE_test_def str yr parts by (simp only: append_assoc)
qed

section \<open>The coercion layer\<close>

lemma from_value_Integer_explicit:
  "from_value P (VInteger w) =
      (if - (2 ^ 53 - 1) \<le> sint w \<and> sint w \<le> 2 ^ 53 - 1
       then VNum (sint w) else VStr (show_int (sint w)))"
  by (simp only: from_value_Integer inSafeRange_def MIN_SAFE_VALUE_def MAX_SAFE_VALUE_def
      toNumber_def Integer_toString_def)

lemma singleton_nth: "length r = 1 \<Longrightarrow> r ! 0 = x \<Longrightarrow> r = [x]"
  by (cases r) auto

lemma iso_2020: "isoDateRE_test ''2020-01-01T00:00:00.000Z''" by code_simp
lemma parse_2020: "Date_parse ecma ''2020-01-01T00:00:00.000Z'' = Some 1577836800000" by code_simp
lemma toISO_2020: "toISOString ecma 1577836800000 = ''2020-01-01T00:00:00.000Z''" by code_simp
lemma iso_2020s: "isoDateRE_test ''2020-01-01T00:00:00Z''" by code_simp
lemma parse_2020s: "Date_parse ecma ''2020-01-01T00:00:00Z'' = Some 1577836800000" by code_simp

text \<open>
  Claim C9. A string field is turned into a timestamp exactly when it matches the pattern
  and \<^verbatim>\<open>Date.parse\<close> gives an instant; in particular a string that matches the pattern
  but does not parse stays the string it was.
\<close>

theorem from_string_needs_pattern_and_instant:
  assumes "i < length object" and "object ! i = (key, VStr s)"
  shows "\<exists>newObject. format_from P (Some object) = Some newObject
           \<and> length newObject = length object
           \<and> newObject ! i =
               (key, if isoDateRE_test s \<and> Date_parse P s \<noteq> None
                     then VDate (Date_parse P s) else VStr s)"
  using format_from_nth [OF assms, of P] by (simp only: from_value_Str)

theorem from_string_needs_pattern_and_instant_witness:
  "isoDateRE_test ''2020-19-39T29:59:59Z'' \<and> Date_parse ecma ''2020-19-39T29:59:59Z'' = None
   \<and> format_from ecma (Some [(''note'', VStr ''2020-19-39T29:59:59Z'')])
       = Some [(''note'', VStr ''2020-19-39T29:59:59Z'')]"
proof -
  have a: "isoDateRE_test ''2020-19-39T29:59:59Z''" by code_simp
  have b: "Date_parse ecma ''2020-19-39T29:59:59Z'' = None" by code_simp
  have l: "0 < length [(''note'', VStr ''2020-19-39T29:59:59Z'')]" by simp
  have n: "[(''note'', VStr ''2020-19-39T29:59:59Z'')] ! 0 = (''note'', VStr ''2020-19-39T29:59:59Z'')"
    by simp
  obtain r where r: "format_from ecma (Some [(''note'', VStr ''2020-19-39T29:59:59Z'')]) = Some r"
    and len: "length r = length [(''note'', VStr ''2020-19-39T29:59:59Z'')]"
    and nth: "r ! 0 = (''note'', if isoDateRE_test ''2020-19-39T29:59:59Z'' \<and>
                  Date_parse ecma ''2020-19-39T29:59:59Z'' \<noteq> None
                then VDate (Date_parse ecma ''2020-19-39T29:59:59Z'')
                else VStr ''2020-19-39T29:59:59Z'')"
    using from_string_needs_pattern_and_instant [OF l n, of ecma] by blast
  have "r = [(''note'', VStr ''2020-19-39T29:59:59Z'')]"
    using len nth b by (intro singleton_nth) simp_all
  then show ?thesis using a b r by simp
qed

text \<open>
  Claim C7. A field that holds a store-native integer becomes the number of the same value
  when the value lies between \<open>-(2^53 - 1)\<close> and \<open>2^53 - 1\<close>, and otherwise the decimal
  numeral of the value, from which the value can be read back; the date branch of the loop
  never takes it.
\<close>

theorem from_Integer_safe_or_decimal:
  assumes "i < length object" and "object ! i = (key, VInteger w)"
  shows "\<exists>newObject. format_from P (Some object) = Some newObject
           \<and> length newObject = length object
           \<and> newObject ! i =
               (key, if - (2 ^ 53 - 1) \<le> sint w \<and> sint w \<le> 2 ^ 53 - 1
                     then VNum (sint w) else VStr (show_int (sint w)))
           \<and> read_int (show_int (sint w)) = sint w"
proof -
  obtain res where res: "format_from P (Some object) = Some res" "length res = length object"
      "res ! i = (key, from_value P (VInteger w))"
    using format_from_nth [OF assms, of P] by blast
  show ?thesis
    apply (rule exI [of _ res])
    apply (simp only: res from_value_Integer_explicit read_int_show_int)
    done
qed

theorem from_Integer_safe_or_decimal_witness:
  "format_from ecma (Some [(''big'', VInteger 9007199254740993)])
     = Some [(''big'', VStr ''9007199254740993'')]"
proof -
  have s: "show_int 9007199254740993 = ''9007199254740993''"
    by (simp add: show_int_def show_nat.simps digit_char_def)
  have w: "sint (9007199254740993 :: 64 word) = 9007199254740993" by simp
  have l: "0 < length [(''big'', VInteger 9007199254740993)]" by simp
  have n: "[(''big'', VInteger 9007199254740993)] ! 0 = (''big'', VInteger 9007199254740993)"
    by simp
  obtain r where r: "format_from ecma (Some [(''big'', VInteger 9007199254740993)]) = Some r"
    and len: "length r = length [(''big'', VInteger 9007199254740993)]"
    and nth: "r ! 0 = (''big'', if - (2 ^ 53 - 1) \<le> sint (9007199254740993 :: 64 word)
                     \<and> sint (9007199254740993 :: 64 word) \<le> 2 ^ 53 - 1
                  then VNum (sint (9007199254740993 :: 64 word))
                  else VStr (show_int (sint (9007199254740993 :: 64 word))))"
    using from_Integer_safe_or_decimal [OF l n, of ecma] by blast
  have "r = [(''big'', VStr ''9007199254740993'')]"
    using len nth by (intro singleton_nth) (simp_all add: w s)
  then show ?thesis using r by simp
qed

text \<open>
  Claim C8. The inbound coercion is idempotent: applying it to its own result changes
  nothing, every field of a result is canonical, and an object whose fields are canonical
  is returned as it is. A timestamp made from an ISO string is such a fixed point.
\<close>

theorem format_from_idempotent:
  "format_from P (format_from P x) = format_from P x
   \<and> (\<forall>object. format_from P x = Some object \<longrightarrow> list_all (\<lambda>(key, value). canonical P value) object)
   \<and> (\<forall>object. list_all (\<lambda>(key, value). canonical P value) object
        \<longrightarrow> format_from P (Some object) = Some object)"
proof (intro conjI allI impI)
  show "format_from P (format_from P x) = format_from P x"
    by (cases x) (auto simp: from_value_idem)
next
  fix object assume "format_from P x = Some object"
  then show "list_all (\<lambda>(key, value). canonical P value) object"
    by (cases x) (auto simp: list_all_iff canonical_from_value)
next
  fix object :: obj assume "list_all (\<lambda>(key, value). canonical P value) object"
  then have "map (\<lambda>(key, value). (key, from_value P value)) object = object"
    by (induction object) (auto simp: from_value_canonical)
  then show "format_from P (Some object) = Some object" by simp
qed

theorem format_from_idempotent_witness:
  "format_from ecma (Some [(''expires'', VStr ''2020-01-01T00:00:00.000Z''), (''n'', VInteger 5)])
     = Some [(''expires'', VDate (Some 1577836800000)), (''n'', VNum 5)]
   \<and> format_from ecma (Some [(''expires'', VDate (Some 1577836800000)), (''n'', VNum 5)])
     = Some [(''expires'', VDate (Some 1577836800000)), (''n'', VNum 5)]"
proof -
  have w: "sint (5 :: 64 word) = 5" by simp
  have a: "format_from ecma (Some [(''expires'', VStr ''2020-01-01T00:00:00.000Z''), (''n'', VInteger 5)])
     = Some [(''expires'', VDate (Some 1577836800000)), (''n'', VNum 5)]"
    by (simp add: from_value_Str iso_2020 parse_2020 from_value_Integer_explicit w)
  have "format_from ecma (format_from ecma (Some [(''expires'', VStr ''2020-01-01T00:00:00.000Z''), (''n'', VInteger 5)]))
     = format_from ecma (Some [(''expires'', VStr ''2020-01-01T00:00:00.000Z''), (''n'', VInteger 5)])"
    using format_from_idempotent [of ecma "Some [(''expires'', VStr ''2020-01-01T00:00:00.000Z''), (''n'', VInteger 5)]"]
    by blast
  then show ?thesis by (simp only: a)
qed

text \<open>
  Claim C2, as stated, fails: a field that is a string, not a timestamp, and has the form
  of an ISO date-time comes back from the round trip as a timestamp.
\<close>

theorem round_trip_counterexample:
  "format_to ecma [(''name'', VStr ''2020-01-01T00:00:00Z'')]
     = Inr [(''name'', VStr ''2020-01-01T00:00:00Z'')]
   \<and> format_from ecma (Some [(''name'', VStr ''2020-01-01T00:00:00Z'')])
     = Some [(''name'', VDate (Some 1577836800000))]
   \<and> format_from ecma (Some [(''name'', VStr ''2020-01-01T00:00:00Z'')])
     \<noteq> Some [(''name'', VStr ''2020-01-01T00:00:00Z'')]"
  by (simp add: from_value_Str iso_2020s parse_2020s)

lemma plain_value:
  assumes "plain P v"
    and "\<And>t. v = VDate (Some t) \<Longrightarrow> toISOString P t = ecma_toISOString t"
    and "\<And>t. v = VDate (Some t) \<Longrightarrow> Date_parse P (toISOString P t) = Some t"
  shows "\<exists>v'. to_value P v = Inr v' \<and> from_value P v' = v"
proof (cases v)
  case (VDate t)
  with assms(1) obtain t' where t: "t = Some t'" by (cases t) auto
  have "isoDateRE_test (toISOString P t')"
    using assms(2) [of t'] VDate t iso_toISOString [of t'] by simp
  moreover have "Date_parse P (toISOString P t') = Some t'"
    using assms(3) [of t'] VDate t by simp
  ultimately show ?thesis using VDate t by (simp add: from_value_Str)
next
  case (VStr s)
  with assms(1) show ?thesis by (simp add: from_value_Str)
qed (use assms(1) in \<open>auto simp: from_value_def isInt_def\<close>)

text \<open>
  Claim C2, amended. Let the platform write a timestamp as ECMA-262 does
  (\<^verbatim>\<open>YYYY-MM-DDTHH:mm:ss.sssZ\<close>, the year with a sign and six digits outside 0 to 9999), and
  let its \<^verbatim>\<open>Date.parse\<close> read the string of every timestamp of the record back to the
  same instant. Then for every record whose timestamps are valid and whose other fields hold
  no string that \<^verbatim>\<open>isDate\<close> takes for a date (one that matches the pattern and parses) and
  no store-native integer or temporal value, \<^verbatim>\<open>format.to\<close> succeeds and \<^verbatim>\<open>format.from\<close>
  of its result is the record, field for field. That the pattern of the code accepts
  every string so written is proved (\<open>iso_toISOString\<close>), not assumed.
\<close>

theorem round_trip_canonical_records:
  assumes "list_all (\<lambda>(key, value). plain P value) R"
    and "list_all (\<lambda>t. toISOString P t = ecma_toISOString t) (timestamps R)"
    and "list_all (\<lambda>t. Date_parse P (toISOString P t) = Some t) (timestamps R)"
  shows "\<exists>S. format_to P R = Inr S \<and> format_from P (Some S) = Some R"
  using assms
proof (induction R)
  case Nil
  then show ?case by simp
next
  case (Cons kv R)
  obtain key v where kv: "kv = (key, v)" by (cases kv)
  have p: "plain P v" using Cons.prems(1) kv by simp
  have i: "toISOString P t = ecma_toISOString t" if "v = VDate (Some t)" for t
    using Cons.prems(2) kv that by simp
  have d: "Date_parse P (toISOString P t) = Some t" if "v = VDate (Some t)" for t
    using Cons.prems(3) kv that by simp
  from plain_value [OF p i d] obtain v' where v': "to_value P v = Inr v'" "from_value P v' = v"
    by blast
  have "list_all (\<lambda>(key, value). plain P value) R" using Cons.prems(1) by simp
  moreover have "list_all (\<lambda>t. toISOString P t = ecma_toISOString t) (timestamps R)"
    using Cons.prems(2) kv by (simp split: val.splits option.splits)
  moreover have "list_all (\<lambda>t. Date_parse P (toISOString P t) = Some t) (timestamps R)"
    using Cons.prems(3) kv by (simp split: val.splits option.splits)
  ultimately obtain S where S: "format_to P R = Inr S" "format_from P (Some S) = Some R"
    using Cons.IH by blast
  show ?case using kv v' S by simp
qed

theorem round_trip_canonical_records_witness:
  "list_all (\<lambda>(key, value). plain ecma value)
     [(''id'', VStr ''u1''), (''emailVerified'', VDate (Some 1577836800000)), (''image'', VNull)]
   \<and> timestamps [(''id'', VStr ''u1''), (''emailVerified'', VDate (Some 1577836800000)),
                  (''image'', VNull)] = [1577836800000]
   \<and> toISOString ecma 1577836800000 = ecma_toISOString 1577836800000
   \<and> Date_parse ecma (toISOString ecma 1577836800000) = Some 1577836800000
   \<and> format_to ecma [(''id'', VStr ''u1''), (''emailVerified'', VDate (Some 1577836800000)), (''image'', VNull)]
       = Inr [(''id'', VStr ''u1''), (''emailVerified'', VStr ''2020-01-01T00:00:00.000Z''), (''image'', VNull)]
   \<and> format_from ecma (Some [(''id'', VStr ''u1''), (''emailVerified'', VStr ''2020-01-01T00:00:00.000Z''), (''image'', VNull)])
       = Some [(''id'', VStr ''u1''), (''emailVerified'', VDate (Some 1577836800000)), (''image'', VNull)]"
proof -
  let ?R = "[(''id'', VStr ''u1''), (''emailVerified'', VDate (Some 1577836800000)), (''image'', VNull)]"
  have n: "\<not> isoDateRE_test ''u1''" by code_simp
  have h: "list_all (\<lambda>(key, value). plain ecma value) ?R" by (simp add: n)
  have ts: "timestamps ?R = [1577836800000]" by simp
  have e: "toISOString ecma 1577836800000 = ecma_toISOString 1577836800000"
    by (simp add: ecma_def)
  have p: "Date_parse ecma (toISOString ecma 1577836800000) = Some 1577836800000"
    by (simp only: toISO_2020 parse_2020)
  have i: "list_all (\<lambda>t. toISOString ecma t = ecma_toISOString t) (timestamps ?R)"
    by (simp only: ts list.pred_inject e simp_thms)
  have d: "list_all (\<lambda>t. Date_parse ecma (toISOString ecma t) = Some t) (timestamps ?R)"
    by (simp only: ts list.pred_inject p simp_thms)
  have t: "format_to ecma ?R
       = Inr [(''id'', VStr ''u1''), (''emailVerified'', VStr ''2020-01-01T00:00:00.000Z''), (''image'', VNull)]"
    by (simp add: toISO_2020)
  from round_trip_canonical_records [OF h i d] t h ts e p show ?thesis by simp
qed

section \<open>The adapter on the store\<close>

lemma detach_delete_Nil [simp]: "detach_delete [] g = g"
  by (simp add: detach_delete_def)

lemma match_nodes_detach_delete:
  "match_nodes l pat (detach_delete ids g) = filter (\<lambda>n. nid n \<notin> set ids) (match_nodes l pat g)"
  by (auto simp: match_nodes_def detach_delete_def intro: filter_cong)

lemma match_nodes_deleted [simp]:
  "match_nodes l pat (detach_delete (map nid (match_nodes l pat g)) g) = []"
  by (simp add: match_nodes_detach_delete filter_empty_conv)

lemma client_write_simple:
  "format_to P values = Inr values \<Longrightarrow> statement [(''data'', VMap values)] g = Inr (g', records) \<Longrightarrow>
   client_write P statement values g =
     Inr (g', format_from P (case records of [] \<Rightarrow> None | record # _ \<Rightarrow> Some record))"
  by (simp add: client_write_def)

lemma stmt_useVerificationToken_eq:
  "stmt_useVerificationToken [(''data'', VMap [(''identifier'', VStr i), (''token'', VStr t)])] g =
     (let vs = match_nodes VerificationToken [(''identifier'', VStr i), (''token'', VStr t)] g
      in Inr (detach_delete (map nid vs) g, map (\<lambda>v. [(''properties'', VMap (nprops v))]) vs))"
  by (simp add: stmt_useVerificationToken_def param_def)

lemma useVerificationToken_eq:
  "useVerificationToken P i t g =
     (let vs = match_nodes VerificationToken [(''identifier'', VStr i), (''token'', VStr t)] g
      in Inr (detach_delete (map nid vs) g,
              case vs of [] \<Rightarrow> None | v # _ \<Rightarrow> format_from P (Some (nprops v))))"
  by (simp add: useVerificationToken_def client_write_def stmt_useVerificationToken_eq Let_def
      from_value_def isInt_def split: list.splits)

text \<open>
  Claim C1. When a token with the pair is in the store, the first \<^verbatim>\<open>useVerificationToken\<close>
  returns the fields stored in the (first) matching token, decoded by \<^verbatim>\<open>format.from\<close>,
  and removes every matching token; a second call on the resulting store returns \<^verbatim>\<open>null\<close>
  and leaves that store as it is.
\<close>

theorem useVerificationToken_single_use:
  assumes "match_nodes VerificationToken [(''identifier'', VStr i), (''token'', VStr t)] g = v # vs"
  shows "\<exists>g1. useVerificationToken P i t g = Inr (g1, format_from P (Some (nprops v)))
           \<and> match_nodes VerificationToken [(''identifier'', VStr i), (''token'', VStr t)] g1 = []
           \<and> useVerificationToken P i t g1 = Inr (g1, None)"
proof -
  let ?pat = "[(''identifier'', VStr i), (''token'', VStr t)]"
  let ?g1 = "detach_delete (map nid (match_nodes VerificationToken ?pat g)) g"
  have 1: "useVerificationToken P i t g = Inr (?g1, format_from P (Some (nprops v)))"
    using assms by (simp add: useVerificationToken_eq)
  have 2: "match_nodes VerificationToken ?pat ?g1 = []" by simp
  have 3: "useVerificationToken P i t ?g1 = Inr (?g1, None)"
    by (simp add: useVerificationToken_eq [of P i t ?g1] 2 del: match_nodes_deleted)
  from 1 2 3 show ?thesis by blast
qed

lemma m_token: "match_nodes VerificationToken [(''identifier'', VStr ''a@x''), (''token'', VStr ''t1'')] g_token =
   [\<lparr>nid = 0, nlabel = VerificationToken,
                nprops = [(''identifier'', VStr ''a@x''), (''token'', VStr ''t1''),
                          (''expires'', VStr ''2020-01-01T00:00:00.000Z'')]\<rparr>]"
  by (simp add: g_token_def match_nodes_def has_prop_def)

theorem useVerificationToken_single_use_witness:
  "useVerificationToken ecma ''a@x'' ''t1'' g_token =
     Inr (\<lparr>nodes = [], rels = [], next_id = 1\<rparr>,
          Some [(''identifier'', VStr ''a@x''), (''token'', VStr ''t1''),
                (''expires'', VDate (Some 1577836800000))])
   \<and> useVerificationToken ecma ''a@x'' ''t1'' \<lparr>nodes = [], rels = [], next_id = 1\<rparr> =
     Inr (\<lparr>nodes = [], rels = [], next_id = 1\<rparr>, None)"
proof -
  obtain g1 where a: "useVerificationToken ecma ''a@x'' ''t1'' g_token =
      Inr (g1, format_from ecma (Some [(''identifier'', VStr ''a@x''), (''token'', VStr ''t1''),
                          (''expires'', VStr ''2020-01-01T00:00:00.000Z'')]))"
    and c: "useVerificationToken ecma ''a@x'' ''t1'' g1 = Inr (g1, None)"
    using useVerificationToken_single_use [OF m_token, of ecma] by auto
  have g1: "g1 = \<lparr>nodes = [], rels = [], next_id = 1\<rparr>"
    using a by (simp add: useVerificationToken_eq m_token) (simp add: g_token_def detach_delete_def)
  have n1: "\<not> isoDateRE_test ''a@x''" by code_simp
  have n2: "\<not> isoDateRE_test ''t1''" by code_simp
  show ?thesis using a c unfolding g1
    by (simp add: from_value_def isInt_def iso_2020 parse_2020 n1 n2)
qed

subsection \<open>Objects\<close>

lemma spread_Cons: "spread base ((k, v) # data) = spread (AList.update k v base) data"
  by (simp add: spread_def)

lemma map_of_spread:
  "distinct (map fst data) \<Longrightarrow>
   map_of (spread base data) k = (case map_of data k of Some v \<Rightarrow> Some v | None \<Rightarrow> map_of base k)"
proof (induction data arbitrary: base)
  case Nil
  then show ?case by (simp add: spread_def)
next
  case (Cons kv data)
  obtain k' v' where kv: "kv = (k', v')" by (cases kv)
  have notin: "map_of data k' = None"
    using Cons.prems kv by (simp add: map_of_eq_None_iff)
  show ?case
    using Cons.IH [of "AList.update k' v' base"] Cons.prems notin
    by (auto simp: spread_Cons kv update_conv' split: option.splits)
qed

lemma distinct_spread: "distinct (map fst base) \<Longrightarrow> distinct (map fst (spread base data))"
  unfolding spread_def
  by (induction data arbitrary: base) (auto simp: distinct_update)

lemma map_of_merge_props:
  "distinct (map fst m) \<Longrightarrow>
   map_of (merge_props ps m) k =
     (case map_of m k of None \<Rightarrow> map_of ps k | Some v \<Rightarrow> if v = VNull then None else Some v)"
proof (induction m arbitrary: ps)
  case Nil
  then show ?case by simp
next
  case (Cons kv m)
  obtain k' v' where kv: "kv = (k', v')" by (cases kv)
  have notin: "map_of m k' = None"
    using Cons.prems kv by (simp add: map_of_eq_None_iff)
  show ?case
    using Cons.IH [of "if v' = VNull then AList.delete k' ps else AList.update k' v' ps"]
      Cons.prems notin
    by (auto simp: kv update_conv' delete_conv' split: option.splits)
qed

lemma format_to_keys: "format_to P object = Inr d \<Longrightarrow> map fst d = map fst object"
proof (induction object arbitrary: d)
  case Nil
  then show ?case by simp
next
  case (Cons kv object)
  then show ?case by (cases kv) (auto split: sum.splits)
qed

lemma format_to_map_of:
  "format_to P object = Inr d \<Longrightarrow>
   map_of d k = (case map_of object k of None \<Rightarrow> None
                 | Some v \<Rightarrow> (case to_value P v of Inr v' \<Rightarrow> Some v' | Inl e \<Rightarrow> None))
   \<and> (\<forall>v. map_of object k = Some v \<longrightarrow> (\<exists>v'. to_value P v = Inr v'))"
proof (induction object arbitrary: d)
  case Nil
  then show ?case by simp
next
  case (Cons kv object)
  then show ?case by (cases kv) (auto split: sum.splits)
qed

lemma to_value_Str: "to_value P v = Inr v' \<Longrightarrow> v = VStr s \<Longrightarrow> v' = VStr s"
  by auto


subsection \<open>createUser\<close>

lemma stmt_createUser_eq:
  "storable_map d \<Longrightarrow>
   stmt_createUser [(''data'', VMap d)] g = Inr (create_node User (merge_props [] d) g, [])"
  by (simp add: stmt_createUser_def param_def)

text \<open>
  Claim C10. \<^verbatim>\<open>createUser\<close> returns the input extended with an id: the id of the input
  when it has one, the generated one otherwise, every other field as given; the same object,
  encoded by \<^verbatim>\<open>format.to\<close>, is what the new node holds, so a string id of the input is
  the id that is persisted.
\<close>

theorem createUser_input_id_overrides:
  assumes "distinct (map fst data)"
    and "format_to P (spread [(''id'', VStr uuid)] data) = Inr d"
    and "storable_map d"
  shows "\<exists>user. createUser P uuid data g = Inr (create_node User (merge_props [] d) g, user)
           \<and> map_of user ''id'' = (case map_of data ''id'' of Some v \<Rightarrow> Some v | None \<Rightarrow> Some (VStr uuid))
           \<and> (\<forall>k. k \<noteq> ''id'' \<longrightarrow> map_of user k = map_of data k)
           \<and> (\<forall>s. map_of user ''id'' = Some (VStr s) \<longrightarrow> map_of (merge_props [] d) ''id'' = Some (VStr s))"
proof -
  let ?user = "spread [(''id'', VStr uuid)] data"
  have 1: "createUser P uuid data g = Inr (create_node User (merge_props [] d) g, ?user)"
    using assms(2,3) by (simp add: createUser_def client_write_def stmt_createUser_eq)
  have 2: "map_of ?user ''id'' = (case map_of data ''id'' of Some v \<Rightarrow> Some v | None \<Rightarrow> Some (VStr uuid))"
    using assms(1) by (simp add: map_of_spread split: option.splits)
  have 3: "\<forall>k. k \<noteq> ''id'' \<longrightarrow> map_of ?user k = map_of data k"
    using assms(1) by (auto simp: map_of_spread split: option.splits)
  have dd: "distinct (map fst d)"
    using format_to_keys [OF assms(2)] distinct_spread [of "[(''id'', VStr uuid)]" data] by simp
  have 4: "\<forall>s. map_of ?user ''id'' = Some (VStr s) \<longrightarrow> map_of (merge_props [] d) ''id'' = Some (VStr s)"
  proof (intro allI impI)
    fix s assume s: "map_of ?user ''id'' = Some (VStr s)"
    then have "map_of d ''id'' = Some (VStr s)"
      using format_to_map_of [OF assms(2), of "''id''"] by simp
    then show "map_of (merge_props [] d) ''id'' = Some (VStr s)"
      using dd by (simp add: map_of_merge_props)
  qed
  from 1 2 3 4 show ?thesis by blast
qed

theorem createUser_input_id_overrides_witness:
  "createUser ecma ''generated'' [(''id'', VStr ''mine''), (''name'', VStr ''Ann'')] g_empty =
     Inr (\<lparr>nodes = [\<lparr>nid = 0, nlabel = User,
                      nprops = [(''id'', VStr ''mine''), (''name'', VStr ''Ann'')]\<rparr>],
            rels = [], next_id = 1\<rparr>,
          [(''id'', VStr ''mine''), (''name'', VStr ''Ann'')])"
proof -
  have sp: "spread [(''id'', VStr ''generated'')] [(''id'', VStr ''mine''), (''name'', VStr ''Ann'')]
      = [(''id'', VStr ''mine''), (''name'', VStr ''Ann'')]"
    by (simp add: spread_def)
  have d: "distinct (map fst [(''id'', VStr ''mine''), (''name'', VStr ''Ann'')])" by simp
  have t: "format_to ecma (spread [(''id'', VStr ''generated'')] [(''id'', VStr ''mine''), (''name'', VStr ''Ann'')])
      = Inr [(''id'', VStr ''mine''), (''name'', VStr ''Ann'')]"
    by (simp add: sp)
  have s: "storable_map [(''id'', VStr ''mine''), (''name'', VStr ''Ann'')]"
    by (simp add: storable_map_def)
  obtain user where u: "createUser ecma ''generated'' [(''id'', VStr ''mine''), (''name'', VStr ''Ann'')] g_empty
      = Inr (create_node User (merge_props [] [(''id'', VStr ''mine''), (''name'', VStr ''Ann'')]) g_empty, user)"
    using createUser_input_id_overrides [OF d t s, of g_empty] by blast
  then have "user = [(''id'', VStr ''mine''), (''name'', VStr ''Ann'')]"
    by (simp add: createUser_def sp Let_def split: sum.splits prod.splits)
  with u show ?thesis by (simp add: create_node_def g_empty_def)
qed

subsection \<open>Owned nodes\<close>

lemma nid_inj:
  "distinct (map nid ns) \<Longrightarrow> x \<in> set ns \<Longrightarrow> y \<in> set ns \<Longrightarrow> nid x = nid y \<Longrightarrow> x = y"
  by (meson distinct_map inj_onD)

lemma match_owned_iff:
  "(u, x) \<in> set (match_owned t l pat g) \<longleftrightarrow>
     x \<in> set (match_nodes l pat g) \<and> u \<in> set (match_nodes User [] g)
     \<and> (nid u, t, nid x) \<in> set (rels g)"
  by (auto simp: match_owned_def)

lemma match_nodes_User_iff:
  "u \<in> set (match_nodes User [(''id'', v)] g) \<longleftrightarrow>
     u \<in> set (match_nodes User [] g) \<and> has_prop u ''id'' v"
  by (auto simp: match_nodes_def)

lemma rels_detach_delete:
  "r \<in> set (rels (detach_delete ids g)) \<Longrightarrow> r \<in> set (rels g)"
  by (auto simp: detach_delete_def)

lemma match_owned_after_delete:
  assumes "\<forall>(u, x) \<in> set (match_owned t l pat g). has_prop u ''id'' v"
  shows "match_owned t l pat (detach_delete (map nid (match_nodes User [(''id'', v)] g)) g) = []"
proof (rule ccontr)
  let ?ids = "map nid (match_nodes User [(''id'', v)] g)"
  let ?g' = "detach_delete ?ids g"
  assume "match_owned t l pat ?g' \<noteq> []"
  then obtain u x where ux: "(u, x) \<in> set (match_owned t l pat ?g')"
    by (cases "match_owned t l pat ?g'") auto
  then have x: "x \<in> set (match_nodes l pat g)"
    and u: "u \<in> set (match_nodes User [] g)" and notin: "nid u \<notin> set ?ids"
    and r: "(nid u, t, nid x) \<in> set (rels g)"
    by (auto simp: match_owned_iff match_nodes_detach_delete dest: rels_detach_delete)
  from x u r have "(u, x) \<in> set (match_owned t l pat g)" by (simp add: match_owned_iff)
  with assms have "has_prop u ''id'' v" by auto
  with u have "u \<in> set (match_nodes User [(''id'', v)] g)" by (simp add: match_nodes_User_iff)
  then have "nid u \<in> set ?ids" by simp
  with notin show False by contradiction
qed

subsection \<open>The statements on their parameter bags\<close>

lemma deleteUser_eq:
  "deleteUser P uid g =
     (let us = match_nodes User [(''id'', VStr uid)] g
      in Inr (detach_delete (map nid us) g,
              case us of [] \<Rightarrow> None | u # _ \<Rightarrow> Some [(''properties'', VMap (nprops u))]))"
  by (simp add: deleteUser_def client_write_def stmt_deleteUser_def param_def Let_def
      from_value_def isInt_def split: list.splits)

lemma getUserByAccount_eq:
  "getUserByAccount P [(''provider'', VStr p), (''providerAccountId'', VStr pa)] g =
     (case match_owned HAS_ACCOUNT Account
             [(''provider'', VStr p), (''providerAccountId'', VStr pa)] g of
        [] \<Rightarrow> None
      | (u, a) # _ \<Rightarrow> format_from P (Some (nprops u)))"
  by (simp add: getUserByAccount_def client_read_def stmt_getUserByAccount_def param_def
      split: list.splits prod.splits)

lemma deleteSession_eq:
  "deleteSession P tok g =
     (let pairs = match_owned HAS_SESSION Session [(''sessionToken'', VStr tok)] g
      in Inr (detach_delete (map (\<lambda>(u, s). nid s) pairs) g,
              case pairs of [] \<Rightarrow> None
              | (u, s) # _ \<Rightarrow> Some [(''properties { .*, userId: u.id }'',
                     VMap (AList.update ''userId'' (node_prop u ''id'') (nprops s)))]))"
  by (simp add: deleteSession_def client_write_def stmt_deleteSession_def param_def Let_def
      from_value_def isInt_def split: list.splits prod.splits)

lemma getSessionAndUser_eq:
  "getSessionAndUser P now tok g =
     (let pat = [(''sessionToken'', VStr tok)];
          expired = filter (\<lambda>(u, s). le_datetime (map_of (nprops s) ''expires'') now = Some True)
                      (match_owned HAS_SESSION Session pat g);
          g1 = detach_delete (map (\<lambda>(u, s). nid s) expired) g
      in Inr (g1,
              case match_owned HAS_SESSION Session pat g1 of
                [] \<Rightarrow> None
              | (u, s) # _ \<Rightarrow>
                  Some \<lparr>session = format_from P
                           (Some (AList.update ''userId'' (node_prop u ''id'') (nprops s))),
                        user = format_from P (Some (nprops u))\<rparr>))"
  by (simp add: getSessionAndUser_def client_write_def stmt_getSessionAndUser_def param_def
      Let_def from_value_def isInt_def split: list.splits prod.splits)

lemma getUserByAccount_none:
  "match_owned HAS_ACCOUNT Account [(''provider'', VStr p), (''providerAccountId'', VStr pa)] g = []
   \<Longrightarrow> getUserByAccount P [(''provider'', VStr p), (''providerAccountId'', VStr pa)] g = None"
  by (simp add: getUserByAccount_eq)

lemma getSessionAndUser_none:
  "match_owned HAS_SESSION Session [(''sessionToken'', VStr tok)] g = []
   \<Longrightarrow> getSessionAndUser P now tok g = Inr (g, None)"
  by (simp add: getSessionAndUser_eq)

lemma deleteSession_none:
  "match_owned HAS_SESSION Session [(''sessionToken'', VStr tok)] g = []
   \<Longrightarrow> deleteSession P tok g = Inr (g, None)"
  by (simp add: deleteSession_eq)

lemma no_match_nodes:
  "match_nodes l pat g = [] \<Longrightarrow> n \<in> set (nodes g) \<Longrightarrow> nlabel n = l \<Longrightarrow>
   \<not> list_all (\<lambda>(k, v). has_prop n k v) pat"
  unfolding match_nodes_def filter_empty_conv by blast

text \<open>
  Claim C3, amended. \<^verbatim>\<open>deleteUser\<close> removes every user with the id and the ownership
  relationships of these users; where node identities are unique, every node that is not a
  user stays. For an account key and a session token that only such users own,
  \<^verbatim>\<open>getUserByAccount\<close>, \<^verbatim>\<open>getSessionAndUser\<close> and \<^verbatim>\<open>deleteSession\<close> return \<^verbatim>\<open>null\<close>
  afterwards (and change nothing).
\<close>

theorem deleteUser_then_lookups_null:
  assumes "\<forall>(u, a) \<in> set (match_owned HAS_ACCOUNT Account
              [(''provider'', VStr p), (''providerAccountId'', VStr pa)] g).
             has_prop u ''id'' (VStr uid)"
    and "\<forall>(u, s) \<in> set (match_owned HAS_SESSION Session [(''sessionToken'', VStr tok)] g).
             has_prop u ''id'' (VStr uid)"
  shows "\<exists>g' r. deleteUser P uid g = Inr (g', r)
           \<and> \<not> (\<exists>u \<in> set (nodes g'). nlabel u = User \<and> has_prop u ''id'' (VStr uid))
           \<and> (distinct (map nid (nodes g)) \<longrightarrow>
                 (\<forall>n \<in> set (nodes g). nlabel n \<noteq> User \<longrightarrow> n \<in> set (nodes g')))
           \<and> getUserByAccount P [(''provider'', VStr p), (''providerAccountId'', VStr pa)] g' = None
           \<and> getSessionAndUser P now tok g' = Inr (g', None)
           \<and> deleteSession P tok g' = Inr (g', None)"
proof -
  define g' where "g' = detach_delete (map nid (match_nodes User [(''id'', VStr uid)] g)) g"
  have a: "match_owned HAS_ACCOUNT Account
             [(''provider'', VStr p), (''providerAccountId'', VStr pa)] g' = []"
    unfolding g'_def using assms(1) by (rule match_owned_after_delete)
  have s: "match_owned HAS_SESSION Session [(''sessionToken'', VStr tok)] g' = []"
    unfolding g'_def using assms(2) by (rule match_owned_after_delete)
  have 1: "\<exists>r. deleteUser P uid g = Inr (g', r)"
    unfolding g'_def by (simp add: deleteUser_eq Let_def)
  have m: "match_nodes User [(''id'', VStr uid)] g' = []"
    unfolding g'_def by (rule match_nodes_deleted)
  have 2: "\<not> (\<exists>u \<in> set (nodes g'). nlabel u = User \<and> has_prop u ''id'' (VStr uid))"
    using no_match_nodes [OF m] by auto
  have 6: "distinct (map nid (nodes g)) \<longrightarrow>
             (\<forall>n \<in> set (nodes g). nlabel n \<noteq> User \<longrightarrow> n \<in> set (nodes g'))"
  proof (intro impI ballI)
    fix n assume d: "distinct (map nid (nodes g))" and n: "n \<in> set (nodes g)" "nlabel n \<noteq> User"
    have "nid n \<notin> set (map nid (match_nodes User [(''id'', VStr uid)] g))"
    proof
      assume "nid n \<in> set (map nid (match_nodes User [(''id'', VStr uid)] g))"
      then obtain y where y: "y \<in> set (nodes g)" "nlabel y = User" "nid y = nid n"
        by (auto simp: match_nodes_def)
      with d n have "n = y" using nid_inj by metis
      with y n show False by simp
    qed
    with n show "n \<in> set (nodes g')" by (simp add: g'_def detach_delete_def)
  qed
  note 3 = getUserByAccount_none [OF a, of P]
  note 4 = getSessionAndUser_none [OF s, of P now]
  note 5 = deleteSession_none [OF s, of P]
  from 1 2 3 4 5 6 show ?thesis by blast
qed

lemma not_iso_u1: "\<not> isoDateRE_test ''u1''" by code_simp
lemma not_iso_Ann: "\<not> isoDateRE_test ''Ann''" by code_simp
lemma not_iso_ax: "\<not> isoDateRE_test ''a@x''" by code_simp
lemma not_iso_tok: "\<not> isoDateRE_test ''tok''" by code_simp

lemmas eval_graph = match_owned_def match_nodes_def has_prop_def detach_delete_def
  node_prop_def create_node_def

lemma deleteUser_linked:
  "deleteUser ecma ''u1'' g_linked =
     Inr (g_orphans,
          Some [(''properties'', VMap [(''id'', VStr ''u1''), (''name'', VStr ''Ann''), (''email'', VStr ''a@x'')])])"
  by (simp add: deleteUser_eq g_linked_def g_orphans_def eval_graph)

lemma owned_accounts_linked:
  "match_owned HAS_ACCOUNT Account [(''provider'', VStr ''github''), (''providerAccountId'', VStr ''42'')] g_linked =
     [(\<lparr>nid = 0, nlabel = User,
         nprops = [(''id'', VStr ''u1''), (''name'', VStr ''Ann''), (''email'', VStr ''a@x'')]\<rparr>,
       \<lparr>nid = 1, nlabel = Account,
         nprops = [(''providerAccountId'', VStr ''42''), (''provider'', VStr ''github'')]\<rparr>)]"
  by (simp add: g_linked_def eval_graph)

lemma owned_sessions_linked:
  "match_owned HAS_SESSION Session [(''sessionToken'', VStr ''tok'')] g_linked =
     [(\<lparr>nid = 0, nlabel = User,
         nprops = [(''id'', VStr ''u1''), (''name'', VStr ''Ann''), (''email'', VStr ''a@x'')]\<rparr>,
       \<lparr>nid = 2, nlabel = Session,
         nprops = [(''sessionToken'', VStr ''tok''), (''expires'', VStr ''2020-01-01T00:00:00.000Z'')]\<rparr>)]"
  by (simp add: g_linked_def eval_graph)

text \<open>
  Claim C3, as stated, fails: \<^verbatim>\<open>deleteUser\<close> removes the user node and its relationships,
  and the account and session nodes of the user stay in the store.
\<close>

theorem deleteUser_cascade_counterexample:
  "deleteUser ecma ''u1'' g_linked =
     Inr (g_orphans,
          Some [(''properties'', VMap [(''id'', VStr ''u1''), (''name'', VStr ''Ann''), (''email'', VStr ''a@x'')])])
   \<and> nodes g_orphans =
       [\<lparr>nid = 1, nlabel = Account,
          nprops = [(''providerAccountId'', VStr ''42''), (''provider'', VStr ''github'')]\<rparr>,
        \<lparr>nid = 2, nlabel = Session,
          nprops = [(''sessionToken'', VStr ''tok''), (''expires'', VStr ''2020-01-01T00:00:00.000Z'')]\<rparr>]"
  by (simp add: deleteUser_linked) (simp add: g_orphans_def)

theorem deleteUser_then_lookups_null_witness:
  "getUserByAccount ecma [(''provider'', VStr ''github''), (''providerAccountId'', VStr ''42'')] g_linked
     = Some [(''id'', VStr ''u1''), (''name'', VStr ''Ann''), (''email'', VStr ''a@x'')]
   \<and> deleteUser ecma ''u1'' g_linked =
     Inr (g_orphans,
          Some [(''properties'', VMap [(''id'', VStr ''u1''), (''name'', VStr ''Ann''), (''email'', VStr ''a@x'')])])
   \<and> getUserByAccount ecma [(''provider'', VStr ''github''), (''providerAccountId'', VStr ''42'')] g_orphans = None
   \<and> getSessionAndUser ecma 1767225600000 ''tok'' g_orphans = Inr (g_orphans, None)
   \<and> deleteSession ecma ''tok'' g_orphans = Inr (g_orphans, None)"
proof -
  have h1: "\<forall>(u, a) \<in> set (match_owned HAS_ACCOUNT Account
              [(''provider'', VStr ''github''), (''providerAccountId'', VStr ''42'')] g_linked).
             has_prop u ''id'' (VStr ''u1'')"
    by (simp add: owned_accounts_linked has_prop_def)
  have h2: "\<forall>(u, s) \<in> set (match_owned HAS_SESSION Session [(''sessionToken'', VStr ''tok'')] g_linked).
             has_prop u ''id'' (VStr ''u1'')"
    by (simp add: owned_sessions_linked has_prop_def)
  obtain g' r where d: "deleteUser ecma ''u1'' g_linked = Inr (g', r)"
    and l: "getUserByAccount ecma [(''provider'', VStr ''github''), (''providerAccountId'', VStr ''42'')] g' = None"
       "getSessionAndUser ecma 1767225600000 ''tok'' g' = Inr (g', None)"
       "deleteSession ecma ''tok'' g' = Inr (g', None)"
    using deleteUser_then_lookups_null [OF h1 h2, of ecma 1767225600000] by blast
  from d have g': "g' = g_orphans" by (simp add: deleteUser_linked)
  have b: "getUserByAccount ecma [(''provider'', VStr ''github''), (''providerAccountId'', VStr ''42'')] g_linked
     = Some [(''id'', VStr ''u1''), (''name'', VStr ''Ann''), (''email'', VStr ''a@x'')]"
    by (simp add: getUserByAccount_eq owned_accounts_linked from_value_def isInt_def
        not_iso_u1 not_iso_Ann not_iso_ax)
  from l show ?thesis unfolding g' by (simp add: deleteUser_linked b)
qed

subsection \<open>getSessionAndUser\<close>

lemma createSession_expired:
  "createSession ecma [(''sessionToken'', VStr ''tok''), (''userId'', VStr ''u1''),
                       (''expires'', VDate (Some 1577836800000))] g_user =
     Inr (g_session, [(''sessionToken'', VStr ''tok''), (''userId'', VStr ''u1''),
                      (''expires'', VDate (Some 1577836800000))])"
  by (simp add: createSession_def client_write_def stmt_createSession_def param_def toISO_2020
      storable_map_def g_user_def g_session_def eval_graph)

lemma owned_sessions_session:
  "match_owned HAS_SESSION Session [(''sessionToken'', VStr ''tok'')] g_session =
     [(\<lparr>nid = 0, nlabel = User,
         nprops = [(''id'', VStr ''u1''), (''name'', VStr ''Ann''), (''email'', VStr ''a@x'')]\<rparr>,
       \<lparr>nid = 1, nlabel = Session,
         nprops = [(''sessionToken'', VStr ''tok''), (''expires'', VStr ''2020-01-01T00:00:00.000Z'')]\<rparr>)]"
  by (simp add: g_session_def eval_graph)

text \<open>
  What \<^verbatim>\<open>createSession\<close> writes: the nodes it adds are sessions that hold
  \<^verbatim>\<open>format.to(data)\<close> without its \<^verbatim>\<open>userId\<close>, so an \<^verbatim>\<open>expires\<close> that was a \<^verbatim>\<open>Date\<close> is
  stored as the string \<^verbatim>\<open>toISOString\<close> made of it, on every platform.
\<close>

lemma to_value_fixed: "to_value P v = Inr v' \<Longrightarrow> to_value P v' = Inr v'"
proof (cases v)
  case (VDate t)
  assume "to_value P v = Inr v'"
  with VDate show ?thesis by (cases t) auto
qed auto

lemma format_to_values:
  "format_to P object = Inr d \<Longrightarrow> (k, v) \<in> set d \<Longrightarrow> to_value P v = Inr v"
proof (induction object arbitrary: d)
  case Nil
  then show ?case by simp
next
  case (Cons kv object)
  then show ?case by (cases kv) (auto split: sum.splits dest: to_value_fixed)
qed

lemma get_field_to_value:
  assumes "format_to P object = Inr d"
  shows "to_value P (get_field (VMap d) k) = Inr (get_field (VMap d) k)"
proof (cases "map_of d k")
  case None
  then show ?thesis by simp
next
  case (Some v)
  then have "(k, v) \<in> set d" by (rule map_of_SomeD)
  with assms have "to_value P v = Inr v" by (rule format_to_values)
  with Some show ?thesis by simp
qed

lemma fold_create_nodes:
  "\<exists>ns. nodes (fold (\<lambda>u h. (create_node l ps h)\<lparr>rels := rels h @ [(nid u, t, next_id h)]\<rparr>) us g)
          = nodes g @ ns \<and> (\<forall>n \<in> set ns. nlabel n = l \<and> nprops n = ps)"
proof (induction us arbitrary: g)
  case Nil
  then show ?case by simp
next
  case (Cons u us)
  let ?g = "(create_node l ps g)\<lparr>rels := rels g @ [(nid u, t, next_id g)]\<rparr>"
  from Cons [of ?g] obtain ns where
    ns: "nodes (fold (\<lambda>u h. (create_node l ps h)\<lparr>rels := rels h @ [(nid u, t, next_id h)]\<rparr>) us ?g)
          = nodes ?g @ ns" "\<forall>n \<in> set ns. nlabel n = l \<and> nprops n = ps"
    by blast
  have "nodes ?g = nodes g @ [\<lparr>nid = next_id g, nlabel = l, nprops = ps\<rparr>]"
    by (simp add: create_node_def)
  with ns show ?case
    by (intro exI [of _ "\<lparr>nid = next_id g, nlabel = l, nprops = ps\<rparr> # ns"]) simp
qed

lemma createSession_nodes:
  assumes "createSession P data g = Inr (g', r)"
  shows "\<exists>d ns. format_to P data = Inr d \<and> nodes g' = nodes g @ ns \<and>
           (\<forall>n \<in> set ns. nlabel n = Session \<and> nprops n = merge_props [] (AList.delete ''userId'' d))"
proof -
  from assms obtain d where d: "format_to P data = Inr d"
    by (auto simp: createSession_def split: sum.splits)
  let ?s = "AList.delete ''userId'' d"
  let ?uid = "get_field (VMap d) ''userId''"
  have bag: "format_to P [(''userId'', ?uid), (''s'', VMap ?s)] = Inr [(''userId'', ?uid), (''s'', VMap ?s)]"
    using get_field_to_value [OF d, of "''userId''"] by simp
  let ?us = "match_nodes User [(''id'', ?uid)] g"
  show ?thesis
  proof (cases "?us = []")
    case True
    with assms d bag have "g' = g"
      by (auto simp: createSession_def client_write_def stmt_createSession_def param_def Let_def
          split: sum.splits)
    with d show ?thesis by simp
  next
    case False
    with assms d bag have
      "g' = fold (\<lambda>u h. (create_node Session (merge_props [] ?s) h)
                             \<lparr>rels := rels h @ [(nid u, HAS_SESSION, next_id h)]\<rparr>) ?us g"
      by (auto simp: createSession_def client_write_def stmt_createSession_def param_def Let_def
          split: sum.splits if_splits)
    with d fold_create_nodes [where l = Session and ps = "merge_props [] ?s" and t = HAS_SESSION
        and us = ?us and g = g]
    show ?thesis by auto
  qed
qed

lemma createSession_expires_string:
  assumes "createSession P data g = Inr (g', r)"
    and "distinct (map fst data)"
    and "map_of data ''expires'' = Some (VDate (Some t))"
  shows "\<exists>ns. nodes g' = nodes g @ ns \<and>
           (\<forall>n \<in> set ns. nlabel n = Session \<and>
              map_of (nprops n) ''expires'' = Some (VStr (toISOString P t)))"
proof -
  from createSession_nodes [OF assms(1)] obtain d ns where
    d: "format_to P data = Inr d" and ns: "nodes g' = nodes g @ ns"
    and props: "\<forall>n \<in> set ns. nlabel n = Session \<and> nprops n = merge_props [] (AList.delete ''userId'' d)"
    by blast
  have keys: "distinct (map fst (AList.delete ''userId'' d))"
    using format_to_keys [OF d] assms(2) by (simp add: distinct_delete)
  have "map_of d ''expires'' = Some (VStr (toISOString P t))"
    using format_to_map_of [OF d, of "''expires''"] assms(3) by simp
  then have "map_of (AList.delete ''userId'' d) ''expires'' = Some (VStr (toISOString P t))"
    by (simp add: delete_conv')
  then have "map_of (merge_props [] (AList.delete ''userId'' d)) ''expires''
      = Some (VStr (toISOString P t))"
    by (simp add: map_of_merge_props [OF keys])
  with ns props show ?thesis by auto
qed

lemma le_datetime_not_temporal:
  "\<forall>e. v \<noteq> Some (VDateTime e) \<Longrightarrow> le_datetime v now = None"
  by (cases "(v, now)" rule: le_datetime.cases) simp_all

text \<open>
  When none of the owned sessions with the token is due, that is, the comparison
  \<^verbatim>\<open>s.expires <= datetime($data.now)\<close> is true of none of them, the store stays as it is
  and the first of them is returned with its owner: both halves, decoded. So a live session
  is returned together with its user.
\<close>

lemma getSessionAndUser_none_due:
  assumes "\<forall>(u, s) \<in> set (match_owned HAS_SESSION Session [(''sessionToken'', VStr tok)] g).
             le_datetime (map_of (nprops s) ''expires'') now \<noteq> Some True"
  shows "getSessionAndUser P now tok g =
     Inr (g, case match_owned HAS_SESSION Session [(''sessionToken'', VStr tok)] g of
               [] \<Rightarrow> None
             | (u, s) # rest \<Rightarrow>
                 Some \<lparr>session = format_from P
                                   (Some (AList.update ''userId'' (node_prop u ''id'') (nprops s))),
                       user = format_from P (Some (nprops u))\<rparr>)"
proof -
  have "filter (\<lambda>(u, s). le_datetime (map_of (nprops s) ''expires'') now = Some True)
          (match_owned HAS_SESSION Session [(''sessionToken'', VStr tok)] g) = []"
    using assms by (auto simp: filter_empty_conv)
  then show ?thesis by (simp add: getSessionAndUser_eq Let_def)
qed

text \<open>
  Claim C5. The code does not do what the claim asks of an expired session.
  \<^verbatim>\<open>createSession\<close> stores \<^verbatim>\<open>expires\<close> as the ISO string that \<^verbatim>\<open>format.to\<close> makes of the
  \<^verbatim>\<open>Date\<close>, and the purge compares it with \<^verbatim>\<open>datetime($data.now)\<close>, a temporal value:
  the comparison is \<^verbatim>\<open>null\<close>, never true. Whenever no owned session with the token holds
  a store-native temporal \<^verbatim>\<open>expires\<close>, then at every lookup time, however long after the
  expiry, \<^verbatim>\<open>getSessionAndUser\<close> deletes nothing and returns the first owned session
  with the token together with its owner.
\<close>

theorem getSessionAndUser_never_purges_string_expires:
  assumes "\<forall>(u, s) \<in> set (match_owned HAS_SESSION Session [(''sessionToken'', VStr tok)] g).
             \<forall>e. map_of (nprops s) ''expires'' \<noteq> Some (VDateTime e)"
  shows "getSessionAndUser P now tok g =
     Inr (g, case match_owned HAS_SESSION Session [(''sessionToken'', VStr tok)] g of
               [] \<Rightarrow> None
             | (u, s) # rest \<Rightarrow>
                 Some \<lparr>session = format_from P
                                   (Some (AList.update ''userId'' (node_prop u ''id'') (nprops s))),
                       user = format_from P (Some (nprops u))\<rparr>)"
proof -
  have "\<forall>(u, s) \<in> set (match_owned HAS_SESSION Session [(''sessionToken'', VStr tok)] g).
          le_datetime (map_of (nprops s) ''expires'') now \<noteq> Some True"
    using assms by (auto dest!: le_datetime_not_temporal [where now = now])
  then show ?thesis by (rule getSessionAndUser_none_due)
qed

theorem getSessionAndUser_never_purges_string_expires_witness:
  "createSession ecma [(''sessionToken'', VStr ''tok''), (''userId'', VStr ''u1''),
                       (''expires'', VDate (Some 1577836800000))] g_user =
     Inr (g_session, [(''sessionToken'', VStr ''tok''), (''userId'', VStr ''u1''),
                      (''expires'', VDate (Some 1577836800000))])
   \<and> (1577836800000 :: int) < 1767225600000
   \<and> getSessionAndUser ecma 1767225600000 ''tok'' g_session =
     Inr (g_session,
          Some \<lparr>session = Some [(''sessionToken'', VStr ''tok''),
                                (''expires'', VDate (Some 1577836800000)),
                                (''userId'', VStr ''u1'')],
                user = Some [(''id'', VStr ''u1''), (''name'', VStr ''Ann''), (''email'', VStr ''a@x'')]\<rparr>)
   \<and> match_owned HAS_SESSION Session [(''sessionToken'', VStr ''tok'')] g_session \<noteq> []"
proof -
  have h: "\<forall>(u, s) \<in> set (match_owned HAS_SESSION Session [(''sessionToken'', VStr ''tok'')] g_session).
             \<forall>e. map_of (nprops s) ''expires'' \<noteq> Some (VDateTime e)"
    by (simp add: owned_sessions_session)
  have "getSessionAndUser ecma 1767225600000 ''tok'' g_session =
     Inr (g_session,
          Some \<lparr>session = Some [(''sessionToken'', VStr ''tok''),
                                (''expires'', VDate (Some 1577836800000)),
                                (''userId'', VStr ''u1'')],
                user = Some [(''id'', VStr ''u1''), (''name'', VStr ''Ann''), (''email'', VStr ''a@x'')]\<rparr>)"
    using getSessionAndUser_never_purges_string_expires [OF h, of ecma 1767225600000]
    by (simp add: owned_sessions_session node_prop_def from_value_def isInt_def
        not_iso_u1 not_iso_Ann not_iso_ax not_iso_tok iso_2020 parse_2020)
  then show ?thesis by (simp add: createSession_expired owned_sessions_session)
qed

text \<open>
  Where \<^verbatim>\<open>expires\<close> is a store-native temporal value the comparison is defined and the
  purge does its work; the result is then a single \<^verbatim>\<open>null\<close>. And whatever the store holds,
  the result is \<^verbatim>\<open>null\<close>, with no owned session of the token left in the store, or a
  session together with its owner, never one without the other.
\<close>

lemma owned_sessions_native:
  "match_owned HAS_SESSION Session [(''sessionToken'', VStr ''tok'')] g_native =
     [(\<lparr>nid = 0, nlabel = User,
         nprops = [(''id'', VStr ''u1''), (''name'', VStr ''Ann''), (''email'', VStr ''a@x'')]\<rparr>,
       \<lparr>nid = 1, nlabel = Session,
         nprops = [(''sessionToken'', VStr ''tok''), (''expires'', VDateTime 1577836800000)]\<rparr>)]"
  by (simp add: g_native_def eval_graph)

lemma getSessionAndUser_native:
  "getSessionAndUser ecma 1767225600000 ''tok'' g_native = Inr (g_user\<lparr>next_id := 2\<rparr>, None)"
  by (simp add: getSessionAndUser_eq [of ecma _ _ g_native] owned_sessions_native)
     (simp add: g_native_def g_user_def eval_graph)

lemma match_owned_detach_delete:
  "(u, x) \<in> set (match_owned t l pat (detach_delete ids g)) \<Longrightarrow>
   (u, x) \<in> set (match_owned t l pat g) \<and> nid x \<notin> set ids"
  by (auto simp: match_owned_iff match_nodes_detach_delete dest: rels_detach_delete)

lemma purge_all:
  assumes "\<forall>(u, s) \<in> set (match_owned t l pat g). Q (u, s)"
  shows "match_owned t l pat
           (detach_delete (map (\<lambda>(u, s). nid s) (filter Q (match_owned t l pat g))) g) = []"
proof (rule ccontr)
  let ?ids = "map (\<lambda>(u, s). nid s) (filter Q (match_owned t l pat g))"
  assume "match_owned t l pat (detach_delete ?ids g) \<noteq> []"
  then obtain u x where "(u, x) \<in> set (match_owned t l pat (detach_delete ?ids g))"
    by (cases "match_owned t l pat (detach_delete ?ids g)") auto
  then have in_g: "(u, x) \<in> set (match_owned t l pat g)" and notin: "nid x \<notin> set ?ids"
    using match_owned_detach_delete by blast+
  from in_g assms have "(u, x) \<in> set (filter Q (match_owned t l pat g))" by auto
  then have "nid x \<in> set ?ids" by force
  with notin show False by contradiction
qed

lemma getSessionAndUser_pair_or_null:
  "\<exists>g' r. getSessionAndUser P now tok g = Inr (g', r) \<and>
     (case r of
        None \<Rightarrow> match_owned HAS_SESSION Session [(''sessionToken'', VStr tok)] g' = []
      | Some su \<Rightarrow>
          \<exists>u s rest. match_owned HAS_SESSION Session [(''sessionToken'', VStr tok)] g' = (u, s) # rest
            \<and> session su = Some (map (\<lambda>(key, value). (key, from_value P value))
                                   (AList.update ''userId'' (node_prop u ''id'') (nprops s)))
            \<and> user su = Some (map (\<lambda>(key, value). (key, from_value P value)) (nprops u)))
     \<and> ((\<forall>(u, s) \<in> set (match_owned HAS_SESSION Session [(''sessionToken'', VStr tok)] g).
            \<exists>e. map_of (nprops s) ''expires'' = Some (VDateTime e) \<and> e \<le> now)
          \<longrightarrow> r = None)"
proof -
  let ?Q = "\<lambda>(u, s). le_datetime (map_of (nprops s) ''expires'') now = Some True"
  define g1 where "g1 = detach_delete (map (\<lambda>(u, s). nid s)
      (filter ?Q (match_owned HAS_SESSION Session [(''sessionToken'', VStr tok)] g))) g"
  have purge: "match_owned HAS_SESSION Session [(''sessionToken'', VStr tok)] g1 = []"
    if "\<forall>(u, s) \<in> set (match_owned HAS_SESSION Session [(''sessionToken'', VStr tok)] g).
            \<exists>e. map_of (nprops s) ''expires'' = Some (VDateTime e) \<and> e \<le> now"
  proof -
    from that have "\<forall>(u, s) \<in> set (match_owned HAS_SESSION Session [(''sessionToken'', VStr tok)] g).
        ?Q (u, s)"
      by fastforce
    then show ?thesis unfolding g1_def by (rule purge_all)
  qed
  show ?thesis
  proof (cases "match_owned HAS_SESSION Session [(''sessionToken'', VStr tok)] g1")
    case Nil
    then have "getSessionAndUser P now tok g = Inr (g1, None)"
      unfolding g1_def by (simp add: getSessionAndUser_eq Let_def)
    with Nil show ?thesis by auto
  next
    case (Cons us rest)
    obtain u s where us: "us = (u, s)" by (cases us)
    have "getSessionAndUser P now tok g =
        Inr (g1, Some \<lparr>session = format_from P
                           (Some (AList.update ''userId'' (node_prop u ''id'') (nprops s))),
                        user = format_from P (Some (nprops u))\<rparr>)"
      using Cons us unfolding g1_def by (simp add: getSessionAndUser_eq Let_def)
    moreover have "\<not> (\<forall>(u, s) \<in> set (match_owned HAS_SESSION Session [(''sessionToken'', VStr tok)] g).
            \<exists>e. map_of (nprops s) ''expires'' = Some (VDateTime e) \<and> e \<le> now)"
      using purge Cons by fastforce
    ultimately show ?thesis using Cons us by auto
  qed
qed

subsection \<open>updateUser\<close>




lemma m_user: "match_nodes User [(''id'', VStr ''u1'')] g_user =
    [\<lparr>nid = 0, nlabel = User,
       nprops = [(''id'', VStr ''u1''), (''name'', VStr ''Ann''), (''email'', VStr ''a@x'')]\<rparr>]"
  by (simp add: g_user_def eval_graph)


subsection \<open>Properties that are set twice\<close>

lemma merge_props_fixed:
  "distinct (map fst m) \<Longrightarrow>
   (\<forall>(k, v) \<in> set m. map_of ps k = (if v = VNull then None else Some v)) \<Longrightarrow>
   merge_props ps m = ps"
proof (induction m arbitrary: ps)
  case Nil
  then show ?case by simp
next
  case (Cons kv m)
  obtain k v where kv: "kv = (k, v)" by (cases kv)
  have step: "(if v = VNull then AList.delete k ps else AList.update k v ps) = ps"
  proof (cases "v = VNull")
    case True
    then have "map_of ps k = None" using Cons.prems(2) kv by simp
    then have "k \<notin> fst ` set ps" by (simp add: map_of_eq_None_iff)
    then show ?thesis using True by simp
  next
    case False
    then have "map_of ps k = Some v" using Cons.prems(2) kv by simp
    then show ?thesis using False by (simp add: update_triv)
  qed
  have "merge_props ps m = ps" using Cons.IH [of ps] Cons.prems by simp
  then show ?case by (simp add: kv step)
qed

lemma merge_props_idem:
  assumes "distinct (map fst m)"
  shows "merge_props (merge_props ps m) m = merge_props ps m"
proof (rule merge_props_fixed [OF assms])
  show "\<forall>(k, v) \<in> set m. map_of (merge_props ps m) k = (if v = VNull then None else Some v)"
  proof (clarify)
    fix k v assume "(k, v) \<in> set m"
    then have "map_of m k = Some v" using assms by simp
    then show "map_of (merge_props ps m) k = (if v = VNull then None else Some v)"
      by (simp add: map_of_merge_props [OF assms])
  qed
qed

subsection \<open>Writes on the graph\<close>

lemma set_nodes_sel [simp]:
  "nodes (set_nodes ids f g) =
     map (\<lambda>n. if nid n \<in> set ids then n\<lparr>nprops := f (nprops n)\<rparr> else n) (nodes g)"
  "rels (set_nodes ids f g) = rels g"
  "next_id (set_nodes ids f g) = next_id g"
  by (simp_all add: set_nodes_def)

lemma map_nid_set_nodes [simp]: "map nid (nodes (set_nodes ids f g)) = map nid (nodes g)"
  by (simp add: comp_def if_distrib cong: if_cong)

lemma fold_merge_rel_sel [simp]:
  "nodes (fold merge_rel rs g) = nodes g" "next_id (fold merge_rel rs g) = next_id g"
  by (induction rs arbitrary: g) (simp_all add: merge_rel_def)

lemma match_nodes_cong_nodes: "nodes g = nodes h \<Longrightarrow> match_nodes l pat g = match_nodes l pat h"
  by (simp add: match_nodes_def)

lemma match_nodes_fold_merge_rel [simp]:
  "match_nodes l pat (fold merge_rel rs g) = match_nodes l pat g"
  by (rule match_nodes_cong_nodes) simp

lemma set_rels_fold_merge_rel:
  "set (rels (fold merge_rel rs g)) = set (rels g) \<union> set rs"
  by (induction rs arbitrary: g) (auto simp: merge_rel_def)

lemma distinct_rels_fold_merge_rel:
  "distinct (rels g) \<Longrightarrow> distinct (rels (fold merge_rel rs g))"
  by (induction rs arbitrary: g) (auto simp: merge_rel_def)

lemma fold_merge_rel_present: "set rs \<subseteq> set (rels g) \<Longrightarrow> fold merge_rel rs g = g"
  by (induction rs arbitrary: g) (auto simp: merge_rel_def)

lemma distinct_count_1: "distinct xs \<Longrightarrow> x \<in> set xs \<Longrightarrow> count_list xs x = 1"
  by (induction xs) auto

lemma match_nodes_set_nodes_same:
  assumes d: "distinct (map nid (nodes g))"
    and est: "\<And>n. nlabel n = l \<Longrightarrow>
                list_all (\<lambda>(k, v). has_prop (n\<lparr>nprops := f (nprops n)\<rparr>) k v) pat"
  shows "match_nodes l pat (set_nodes (map nid (match_nodes l pat g)) f g) =
           map (\<lambda>n. n\<lparr>nprops := f (nprops n)\<rparr>) (match_nodes l pat g)"
proof -
  let ?K = "\<lambda>n. nlabel n = l \<and> list_all (\<lambda>(k, v). has_prop n k v) pat"
  let ?ids = "map nid (filter ?K (nodes g))"
  let ?h = "\<lambda>n. if nid n \<in> set ?ids then n\<lparr>nprops := f (nprops n)\<rparr> else n"
  have in_ids: "nid x \<in> set ?ids \<longleftrightarrow> ?K x" if "x \<in> set (nodes g)" for x
  proof
    assume "nid x \<in> set ?ids"
    then obtain y where y: "y \<in> set (nodes g)" "?K y" "nid y = nid x" by auto
    with that d have "x = y" using nid_inj by metis
    with y show "?K x" by simp
  next
    assume "?K x" with that show "nid x \<in> set ?ids" by auto
  qed
  have K_h: "?K (?h x) = ?K x" if "x \<in> set (nodes g)" for x
    using in_ids [OF that] est [of x] by auto
  have "filter ?K (map ?h (nodes g)) = map ?h (filter (?K \<circ> ?h) (nodes g))"
    by (simp add: filter_map)
  also have "filter (?K \<circ> ?h) (nodes g) = filter ?K (nodes g)"
    by (rule filter_cong) (use K_h in auto)
  also have "map ?h (filter ?K (nodes g)) = map (\<lambda>n. n\<lparr>nprops := f (nprops n)\<rparr>) (filter ?K (nodes g))"
    by (rule map_cong) (use in_ids in auto)
  finally show ?thesis by (simp add: match_nodes_def)
qed

lemma match_nodes_set_nodes_other:
  assumes d: "distinct (map nid (nodes g))" and ne: "l' \<noteq> l"
  shows "match_nodes l' q (set_nodes (map nid (match_nodes l pat g)) f g) = match_nodes l' q g"
proof -
  let ?K' = "\<lambda>n. nlabel n = l' \<and> list_all (\<lambda>(k, v). has_prop n k v) q"
  let ?ids = "map nid (match_nodes l pat g)"
  let ?h = "\<lambda>n. if nid n \<in> set ?ids then n\<lparr>nprops := f (nprops n)\<rparr> else n"
  have stays: "?h x = x" if "x \<in> set (nodes g)" "nlabel x = l'" for x
  proof -
    have "nid x \<notin> set ?ids"
    proof
      assume "nid x \<in> set ?ids"
      then obtain y where y: "y \<in> set (nodes g)" "nlabel y = l" "nid y = nid x"
        by (auto simp: match_nodes_def)
      with that d have "x = y" using nid_inj by metis
      with y that ne show False by simp
    qed
    then show ?thesis by simp
  qed
  have K_h: "?K' (?h x) = ?K' x" if "x \<in> set (nodes g)" for x
    using stays [OF that] by (cases "nlabel x = l'") auto
  have "filter ?K' (map ?h (nodes g)) = map ?h (filter (?K' \<circ> ?h) (nodes g))"
    by (simp add: filter_map)
  also have "filter (?K' \<circ> ?h) (nodes g) = filter ?K' (nodes g)"
    by (rule filter_cong) (use K_h in auto)
  also have "map ?h (filter ?K' (nodes g)) = filter ?K' (nodes g)"
    by (rule map_idI) (use stays in auto)
  finally show ?thesis by (simp add: match_nodes_def)
qed

subsection \<open>linkAccount\<close>

lemma storable_map_delete: "storable_map m \<Longrightarrow> storable_map (AList.delete k m)"
  by (auto simp: storable_map_def list_all_iff AList.delete_eq)

lemma linkAccount_eq:
  assumes "map_of data ''userId'' = Some (VStr uid)"
    and "map_of data ''providerAccountId'' = Some (VStr pa)"
    and "map_of data ''provider'' = Some (VStr p)"
    and "storable_map (AList.delete ''userId'' data)"
  shows "linkAccount P data g =
     (if match_nodes User [(''id'', VStr uid)] g = [] then Inr (g, data)
      else Inr (link_writes [(''providerAccountId'', VStr pa), (''provider'', VStr p)]
                  (AList.delete ''userId'' data) (match_nodes User [(''id'', VStr uid)] g) g, data))"
proof -
  have a: "map_of (AList.delete ''userId'' data) ''providerAccountId'' = Some (VStr pa)"
    "map_of (AList.delete ''userId'' data) ''provider'' = Some (VStr p)"
    using assms(2,3) by simp_all
  show ?thesis
    using assms(1,4) a
    by (simp add: linkAccount_def client_write_def stmt_linkAccount_def param_def Let_def)
qed

lemma has_prop_upd:
  "map_of ps k = Some (VStr s) \<Longrightarrow> has_prop (n\<lparr>nprops := ps\<rparr>) k (VStr s)"
  by (simp add: has_prop_def)

lemma key_established:
  assumes "distinct (map fst m)"
    and "map_of m ''providerAccountId'' = Some (VStr pa)"
    and "map_of m ''provider'' = Some (VStr p)"
  shows "list_all (\<lambda>(k, v). has_prop (n\<lparr>nprops := merge_props (nprops n) m\<rparr>) k v)
           [(''providerAccountId'', VStr pa), (''provider'', VStr p)]"
  using assms(2,3) by (simp add: has_prop_upd map_of_merge_props [OF assms(1)])

lemma length_one: "xs \<noteq> [] \<Longrightarrow> length xs \<le> 1 \<Longrightarrow> length xs = 1"
  by (cases xs) auto

lemma merge_node_facts:
  assumes wf: "wf_graph g"
    and mn: "merge_node Account [(''providerAccountId'', VStr pa), (''provider'', VStr p)] g = (g1, as)"
  shows "match_nodes Account [(''providerAccountId'', VStr pa), (''provider'', VStr p)] g1 = as"
    and "as \<noteq> []"
    and "distinct (map nid (nodes g1))"
    and "rels g1 = rels g"
    and "match_nodes User q g1 = match_nodes User q g"
    and "length (match_nodes Account [(''providerAccountId'', VStr pa), (''provider'', VStr p)] g) \<le> 1
           \<Longrightarrow> length as = 1"
proof -
  let ?pat = "[(''providerAccountId'', VStr pa), (''provider'', VStr p)]"
  have fresh: "next_id g \<notin> nid ` set (nodes g)"
    using wf by (auto simp: wf_graph_def list_all_iff)
  have d: "distinct (map nid (nodes g))" using wf by (simp add: wf_graph_def)
  show "match_nodes Account ?pat g1 = as"
    using mn by (auto simp: merge_node_def create_node_def match_nodes_def has_prop_def
        split: if_splits)
  show "as \<noteq> []" using mn by (auto simp: merge_node_def split: if_splits)
  show "distinct (map nid (nodes g1))"
    using mn d fresh by (auto simp: merge_node_def create_node_def split: if_splits)
  show "rels g1 = rels g"
    using mn by (auto simp: merge_node_def create_node_def split: if_splits)
  show "match_nodes User q g1 = match_nodes User q g"
    using mn by (auto simp: merge_node_def create_node_def match_nodes_def split: if_splits)
  show "length as = 1" if "length (match_nodes Account ?pat g) \<le> 1"
  proof (cases "match_nodes Account ?pat g = []")
    case True
    then show ?thesis using mn by (auto simp: merge_node_def)
  next
    case False
    then have "as = match_nodes Account ?pat g" using mn by (auto simp: merge_node_def)
    with length_one [OF False that] show ?thesis by (simp only:)
  qed
qed

lemma link_writes_facts:
  fixes us :: "node list"
  assumes wf: "wf_graph g"
    and dm: "distinct (map fst m)"
    and pa: "map_of m ''providerAccountId'' = Some (VStr pa)"
    and p: "map_of m ''provider'' = Some (VStr p)"
    and mn: "merge_node Account [(''providerAccountId'', VStr pa), (''provider'', VStr p)] g = (g1, as)"
  defines "g3 \<equiv> link_writes [(''providerAccountId'', VStr pa), (''provider'', VStr p)] m us g"
  shows "match_nodes Account [(''providerAccountId'', VStr pa), (''provider'', VStr p)] g3 =
           map (\<lambda>n. n\<lparr>nprops := merge_props (nprops n) m\<rparr>) as"
    and "match_nodes User q g3 = match_nodes User q g"
    and "distinct (map nid (nodes g3))"
    and "next_id g3 = next_id g1"
    and "set (rels g3) = set (rels g) \<union> set [(nid u, HAS_ACCOUNT, nid x). u \<leftarrow> us, x \<leftarrow> as]"
    and "distinct (rels g) \<Longrightarrow> distinct (rels g3)"
    and "nodes g3 = map (\<lambda>n. if nid n \<in> set (map nid as)
                              then n\<lparr>nprops := merge_props (nprops n) m\<rparr> else n) (nodes g1)"
proof -
  let ?pat = "[(''providerAccountId'', VStr pa), (''provider'', VStr p)]"
  let ?f = "\<lambda>ps. merge_props ps m"
  let ?g2 = "set_nodes (map nid as) ?f g1"
  let ?rs = "[(nid u, HAS_ACCOUNT, nid x). u \<leftarrow> us, x \<leftarrow> as]"
  note mf = merge_node_facts [OF wf mn]
  have g3: "g3 = fold merge_rel ?rs ?g2" by (simp add: g3_def link_writes_def mn)
  have acc: "match_nodes Account ?pat ?g2 = map (\<lambda>n. n\<lparr>nprops := ?f (nprops n)\<rparr>) as"
    using match_nodes_set_nodes_same [OF mf(3), of Account ?f ?pat]
      key_established [OF dm pa p] by (simp add: mf(1))
  have usr: "match_nodes User q ?g2 = match_nodes User q g"
    using match_nodes_set_nodes_other [OF mf(3), of User Account q ?pat ?f]
    by (simp add: mf(1) mf(5))
  show "match_nodes Account ?pat g3 = map (\<lambda>n. n\<lparr>nprops := ?f (nprops n)\<rparr>) as"
    by (simp add: g3 acc)
  show "match_nodes User q g3 = match_nodes User q g" by (simp add: g3 usr)
  show "distinct (map nid (nodes g3))"
    by (simp only: g3 fold_merge_rel_sel map_nid_set_nodes mf(3))
  show "next_id g3 = next_id g1" by (simp add: g3)
  show "set (rels g3) = set (rels g) \<union> set ?rs"
    by (simp add: g3 set_rels_fold_merge_rel mf(4))
  show "distinct (rels g3)" if "distinct (rels g)"
    unfolding g3 by (rule distinct_rels_fold_merge_rel) (simp add: mf(4) that)
  show "nodes g3 = map (\<lambda>n. if nid n \<in> set (map nid as)
                              then n\<lparr>nprops := ?f (nprops n)\<rparr> else n) (nodes g1)"
    by (simp add: g3)
qed

lemma link_writes_again:
  fixes us :: "node list" and pa p :: string
  assumes wf: "wf_graph g"
    and dm: "distinct (map fst m)"
    and pa: "map_of m ''providerAccountId'' = Some (VStr pa)"
    and p: "map_of m ''provider'' = Some (VStr p)"
  defines "pat \<equiv> [(''providerAccountId'', VStr pa), (''provider'', VStr p)]"
  defines "g3 \<equiv> link_writes pat m us g"
  shows "link_writes pat m us g3 = g3"
proof -
  let ?f = "\<lambda>ps. merge_props ps m"
  let ?upd = "\<lambda>n. n\<lparr>nprops := ?f (nprops n)\<rparr>"
  obtain g1 as where mn: "merge_node Account pat g = (g1, as)" by (cases "merge_node Account pat g")
  note mf = merge_node_facts [OF wf mn [unfolded pat_def]]
  note lf = link_writes_facts [OF wf dm pa p mn [unfolded pat_def], where us = us,
      folded pat_def g3_def]
  let ?as3 = "map ?upd as"
  let ?rs = "[(nid u, HAS_ACCOUNT, nid x). u \<leftarrow> us, x \<leftarrow> as]"
  have m3: "match_nodes Account pat g3 = ?as3" by (rule lf(1))
  have ne: "?as3 \<noteq> []" using mf(2) by simp
  have mn3: "merge_node Account pat g3 = (g3, ?as3)"
    using m3 ne by (simp add: merge_node_def)
  have ids: "map nid ?as3 = map nid as" by (simp add: comp_def)
  have rs3: "[(nid u, HAS_ACCOUNT, nid x). u \<leftarrow> us, x \<leftarrow> ?as3] = ?rs"
    by (simp add: comp_def map_concat)
  have nodes_same: "map (\<lambda>n. if nid n \<in> set (map nid as) then ?upd n else n) (nodes g3) = nodes g3"
    unfolding lf(7) by (simp add: comp_def merge_props_idem [OF dm])
  have "set_nodes (map nid as) ?f g3 =
      g3\<lparr>nodes := map (\<lambda>n. if nid n \<in> set (map nid as) then ?upd n else n) (nodes g3)\<rparr>"
    by (simp only: set_nodes_def)
  also have "\<dots> = g3\<lparr>nodes := nodes g3\<rparr>" by (simp only: nodes_same)
  also have "\<dots> = g3" by simp
  finally have set_same: "set_nodes (map nid ?as3) ?f g3 = g3" by (simp only: ids)
  have "set ?rs \<subseteq> set (rels g3)" unfolding lf(5) by simp
  then have again: "fold merge_rel ?rs g3 = g3" by (rule fold_merge_rel_present)
  have "link_writes pat m us g3 =
      fold merge_rel [(nid u, HAS_ACCOUNT, nid x). u \<leftarrow> us, x \<leftarrow> ?as3]
        (set_nodes (map nid ?as3) ?f g3)"
    by (simp only: link_writes_def mn3 Let_def prod.case)
  then show ?thesis by (simp only: rs3 set_same again)
qed

text \<open>
  Claim C6. In a well-formed store without parallel relationships, with one user of the
  given id and at most one account of the given key, \<^verbatim>\<open>linkAccount\<close> leaves exactly one
  account with the key, holding the fields of the payload, and exactly one
  \<^verbatim>\<open>HAS_ACCOUNT\<close> relationship from the user to it; a second call with the same data
  returns the same result and leaves the store exactly as the first call left it.
\<close>

theorem linkAccount_idempotent:
  assumes wf: "wf_graph g" and dr: "distinct (rels g)"
    and dd: "distinct (map fst data)"
    and uid: "map_of data ''userId'' = Some (VStr uid)"
    and pa: "map_of data ''providerAccountId'' = Some (VStr pa)"
    and p: "map_of data ''provider'' = Some (VStr p)"
    and st: "storable_map data"
    and user: "match_nodes User [(''id'', VStr uid)] g = [u]"
    and uniq: "length (match_nodes Account
                 [(''providerAccountId'', VStr pa), (''provider'', VStr p)] g) \<le> 1"
  shows "\<exists>g1 a. linkAccount P data g = Inr (g1, data)
           \<and> linkAccount P data g1 = Inr (g1, data)
           \<and> match_nodes Account [(''providerAccountId'', VStr pa), (''provider'', VStr p)] g1 = [a]
           \<and> count_list (rels g1) (nid u, HAS_ACCOUNT, nid a) = 1
           \<and> (\<forall>k v. k \<noteq> ''userId'' \<longrightarrow> map_of data k = Some v \<longrightarrow> v \<noteq> VNull
                  \<longrightarrow> map_of (nprops a) k = Some v)"
proof -
  let ?pat = "[(''providerAccountId'', VStr pa), (''provider'', VStr p)]"
  let ?m = "AList.delete ''userId'' data"
  let ?upd = "\<lambda>n. n\<lparr>nprops := merge_props (nprops n) ?m\<rparr>"
  define g3 where "g3 = link_writes ?pat ?m [u] g"
  have dm: "distinct (map fst ?m)" using dd by (rule distinct_delete)
  have mpa: "map_of ?m ''providerAccountId'' = Some (VStr pa)" using pa by simp
  have mp: "map_of ?m ''provider'' = Some (VStr p)" using p by simp
  have sm: "storable_map ?m" using st by (rule storable_map_delete)
  obtain g1 as where mn: "merge_node Account ?pat g = (g1, as)"
    by (cases "merge_node Account ?pat g")
  note mf = merge_node_facts [OF wf mn]
  note lf = link_writes_facts [OF wf dm mpa mp mn, where us = "[u]", folded g3_def]
  from mf(6) [OF uniq] obtain a0 where as: "as = [a0]"
    by (cases as) auto
  have first: "linkAccount P data g = Inr (g3, data)"
    by (simp add: linkAccount_eq [OF uid pa p sm] user g3_def)
  have user3: "match_nodes User [(''id'', VStr uid)] g3 = [u]"
    by (simp add: lf(2) user)
  have again: "link_writes ?pat ?m [u] g3 = g3"
    unfolding g3_def using wf dm mpa mp by (rule link_writes_again)
  have second: "linkAccount P data g3 = Inr (g3, data)"
    by (simp add: linkAccount_eq [OF uid pa p sm] user3 again)
  have one: "match_nodes Account ?pat g3 = [?upd a0]"
    by (simp add: lf(1) as)
  have "(nid u, HAS_ACCOUNT, nid a0) \<in> set (rels g3)"
    by (simp add: lf(5) as)
  moreover have "distinct (rels g3)" using dr by (rule lf(6))
  ultimately have count: "count_list (rels g3) (nid u, HAS_ACCOUNT, nid (?upd a0)) = 1"
    by (simp add: distinct_count_1)
  have stored: "\<forall>k v. k \<noteq> ''userId'' \<longrightarrow> map_of data k = Some v \<longrightarrow> v \<noteq> VNull
                  \<longrightarrow> map_of (nprops (?upd a0)) k = Some v"
    by (simp add: map_of_merge_props [OF dm])
  from first second one count stored show ?thesis by blast
qed

lemma wf_g_user: "wf_graph g_user"
  by (simp add: wf_graph_def g_user_def)

lemma link_user:
  "link_writes [(''providerAccountId'', VStr ''42''), (''provider'', VStr ''github'')]
     [(''provider'', VStr ''github''), (''providerAccountId'', VStr ''42''), (''type'', VStr ''oauth'')]
     [\<lparr>nid = 0, nlabel = User,
        nprops = [(''id'', VStr ''u1''), (''name'', VStr ''Ann''), (''email'', VStr ''a@x'')]\<rparr>]
     g_user = g_account"
  by (simp add: link_writes_def merge_node_def g_user_def g_account_def eval_graph
      set_nodes_def merge_rel_def)

lemma linkAccount_user:
  "linkAccount ecma [(''userId'', VStr ''u1''), (''provider'', VStr ''github''),
                     (''providerAccountId'', VStr ''42''), (''type'', VStr ''oauth'')] g_user =
     Inr (g_account, [(''userId'', VStr ''u1''), (''provider'', VStr ''github''),
                      (''providerAccountId'', VStr ''42''), (''type'', VStr ''oauth'')])"
proof -
  have s: "storable_map (AList.delete ''userId'' [(''userId'', VStr ''u1''), (''provider'', VStr ''github''),
                     (''providerAccountId'', VStr ''42''), (''type'', VStr ''oauth'')])"
    by (simp add: storable_map_def)
  show ?thesis
    by (simp add: linkAccount_eq [where uid = "''u1''" and pa = "''42''" and p = "''github''", OF _ _ _ s]
        m_user) (simp add: link_user)
qed

theorem linkAccount_idempotent_witness:
  "linkAccount ecma [(''userId'', VStr ''u1''), (''provider'', VStr ''github''),
                     (''providerAccountId'', VStr ''42''), (''type'', VStr ''oauth'')] g_user =
     Inr (g_account, [(''userId'', VStr ''u1''), (''provider'', VStr ''github''),
                      (''providerAccountId'', VStr ''42''), (''type'', VStr ''oauth'')])
   \<and> linkAccount ecma [(''userId'', VStr ''u1''), (''provider'', VStr ''github''),
                     (''providerAccountId'', VStr ''42''), (''type'', VStr ''oauth'')] g_account =
     Inr (g_account, [(''userId'', VStr ''u1''), (''provider'', VStr ''github''),
                      (''providerAccountId'', VStr ''42''), (''type'', VStr ''oauth'')])"
proof -
  let ?data = "[(''userId'', VStr ''u1''), (''provider'', VStr ''github''),
                (''providerAccountId'', VStr ''42''), (''type'', VStr ''oauth'')]"
  have dr: "distinct (rels g_user)" by (simp add: g_user_def)
  have dd: "distinct (map fst ?data)" by simp
  have uid: "map_of ?data ''userId'' = Some (VStr ''u1'')" by simp
  have pa: "map_of ?data ''providerAccountId'' = Some (VStr ''42'')" by simp
  have p: "map_of ?data ''provider'' = Some (VStr ''github'')" by simp
  have st: "storable_map ?data" by (simp add: storable_map_def)
  have uniq: "length (match_nodes Account
                 [(''providerAccountId'', VStr ''42''), (''provider'', VStr ''github'')] g_user) \<le> 1"
    by (simp add: g_user_def match_nodes_def)
  obtain g1 where a: "linkAccount ecma ?data g_user = Inr (g1, ?data)"
    and b: "linkAccount ecma ?data g1 = Inr (g1, ?data)"
    using linkAccount_idempotent [OF wf_g_user dr dd uid pa p st m_user uniq, of ecma] by blast
  from a have "g1 = g_account" by (simp add: linkAccount_user)
  with a b show ?thesis by simp
qed

end
